theory Spec2Isabelle
  imports Main
begin

section \<open>Tables of the IMDb build\<close>

text \<open>
  The build script reads three title tables and one person table, merges and filters the
  titles, and rewrites the director and writer identifier lists into names. A cell that
  pandas reads as NA (the token \<^verbatim>\<open>\N\<close>) is \<open>None\<close>. The average rating is a float the
  script only carries along, so its type is the parameter \<open>'f\<close>. Every column has the
  type the data has in the IMDb files: text, or whole numbers with gaps. The three title
  tables are read without a dtype, so pandas infers one for each column from the whole
  archive; where that dtype decides what the script does (the keys of the two merges and
  the columns read through \<^verbatim>\<open>.str\<close>) the build computes it from the cells.
\<close>

record basics_row =
  tconst :: "string option"
  titleType :: "string option"
  primaryTitle :: "string option"
  originalTitle :: "string option"
  isAdult :: "int option"
  startYear :: "int option"
  endYear :: "int option"
  runtimeMinutes :: "int option"
  genres :: "string option"

text \<open>The columns of title.ratings and title.crew; the prefix keeps the key columns apart.\<close>

record 'f ratings_row =
  r_tconst :: "string option"
  r_averageRating :: "'f option"
  r_numVotes :: "int option"

record crew_row =
  c_tconst :: "string option"
  c_directors :: "string option"
  c_writers :: "string option"

text \<open>A merged row is the left row extended by the right table's columns.\<close>

record 'f rated_row = basics_row +
  averageRating :: "'f option"
  numVotes :: "int option"

record 'f title_row = "'f rated_row" +
  directors :: "string option"
  writers :: "string option"

text \<open>A data frame is its rows in order, each under its index label.\<close>

type_synonym 'a frame = "(nat \<times> 'a) list"

definition range_index :: "'a list \<Rightarrow> 'a frame" where
  "range_index rows = zip [0..<length rows] rows"

subsection \<open>Merging the title tables\<close>

definition with_ratings :: "basics_row \<Rightarrow> 'f ratings_row \<Rightarrow> 'f rated_row" where
  "with_ratings b r =
     \<lparr>tconst = tconst b, titleType = titleType b, primaryTitle = primaryTitle b,
      originalTitle = originalTitle b, isAdult = isAdult b, startYear = startYear b,
      endYear = endYear b, runtimeMinutes = runtimeMinutes b, genres = genres b,
      averageRating = r_averageRating r, numVotes = r_numVotes r\<rparr>"

definition with_crew :: "'f rated_row \<Rightarrow> string option \<Rightarrow> string option \<Rightarrow> 'f title_row" where
  "with_crew j d w =
     \<lparr>tconst = tconst j, titleType = titleType j, primaryTitle = primaryTitle j,
      originalTitle = originalTitle j, isAdult = isAdult j, startYear = startYear j,
      endYear = endYear j, runtimeMinutes = runtimeMinutes j, genres = genres j,
      averageRating = averageRating j, numVotes = numVotes j,
      directors = d, writers = w\<rparr>"

text \<open>
  \<^verbatim>\<open>basics.merge(ratings, on="tconst", how="inner")\<close>: every pair of a left and a right row
  with equal keys, in the order of the left rows; a left row without a partner is dropped.
\<close>

definition merge_inner :: "basics_row list \<Rightarrow> 'f ratings_row list \<Rightarrow> 'f rated_row list" where
  "merge_inner basics ratings =
     concat (map (\<lambda>b. map (with_ratings b) (filter (\<lambda>r. r_tconst r = tconst b) ratings)) basics)"

text \<open>
  \<^verbatim>\<open>df.merge(crew, on="tconst", how="left")\<close>: as above, but a left row without a partner
  stays, with NA in the right table's columns.
\<close>

definition merge_left :: "'f rated_row list \<Rightarrow> crew_row list \<Rightarrow> 'f title_row list" where
  "merge_left df crew =
     concat (map (\<lambda>j. case filter (\<lambda>c. c_tconst c = tconst j) crew of
                          [] \<Rightarrow> [with_crew j None None]
                        | cs \<Rightarrow> map (\<lambda>c. with_crew j (c_directors c) (c_writers c)) cs) df)"

definition merge_titles ::
  "basics_row list \<Rightarrow> 'f ratings_row list \<Rightarrow> crew_row list \<Rightarrow> 'f title_row frame" where
  "merge_titles basics ratings crew = range_index (merge_left (merge_inner basics ratings) crew)"

subsection \<open>The title filter\<close>

text \<open>Comparing a column with a scalar is false on an NA cell.\<close>

definition eq_cell :: "'a option \<Rightarrow> 'a \<Rightarrow> bool" where
  "eq_cell c v = (case c of None \<Rightarrow> False | Some x \<Rightarrow> x = v)"

definition ge_cell :: "int option \<Rightarrow> int \<Rightarrow> bool" where
  "ge_cell c v = (case c of None \<Rightarrow> False | Some x \<Rightarrow> v \<le> x)"

definition notna :: "'a option \<Rightarrow> bool" where
  "notna c = (c \<noteq> None)"

definition title_mask :: "'f title_row \<Rightarrow> bool" where
  "title_mask r =
     (eq_cell (isAdult r) 0 \<and> eq_cell (titleType r) ''movie'' \<and> notna (runtimeMinutes r)
      \<and> ge_cell (startYear r) 1930 \<and> ge_cell (numVotes r) 1000)"

definition title_filter :: "'f title_row frame \<Rightarrow> 'f title_row frame" where
  "title_filter df = filter (\<lambda>(i, r). title_mask r) df"

section \<open>Strings\<close>

text \<open>
  Python's \<^verbatim>\<open>s.split(",")\<close>: the pieces between the separators, so a string without one is
  its own single piece and the empty string gives one empty piece.
\<close>

fun split_str :: "char \<Rightarrow> string \<Rightarrow> string list" where
  "split_str sep [] = [[]]"
| "split_str sep (c # cs) =
     (if c = sep then [] # split_str sep cs
      else (case split_str sep cs of [] \<Rightarrow> [[c]] | t # ts \<Rightarrow> (c # t) # ts))"

text \<open>\<^verbatim>\<open>sep.join(xs)\<close>.\<close>

fun join_str :: "string \<Rightarrow> string list \<Rightarrow> string" where
  "join_str sep [] = []"
| "join_str sep [x] = x"
| "join_str sep (x # y # ys) = x @ sep @ join_str sep (y # ys)"

text \<open>
  A character stands for the code point of its number, so the strings here are the Python
  strings with code points below 256. \<^verbatim>\<open>s.strip()\<close> removes leading and trailing
  whitespace, that is the characters for which \<^verbatim>\<open>str.isspace\<close> holds: below 256 these are
  the tab to carriage return, the four separators from 0x1C, the space, the next line
  character 0x85 and the no-break space 0xA0.
\<close>

definition isspace :: "char \<Rightarrow> bool" where
  "isspace c = (c \<in> set [CHR 0x09, CHR 0x0A, CHR 0x0B, CHR 0x0C, CHR 0x0D,
                          CHR 0x1C, CHR 0x1D, CHR 0x1E, CHR 0x1F, CHR 0x20,
                          CHR 0x85, CHR 0xA0])"

definition strip :: "string \<Rightarrow> string" where
  "strip s = rev (dropWhile isspace (rev (dropWhile isspace s)))"

text \<open>\<^verbatim>\<open>str(n)\<close> for a natural number: its decimal digits.\<close>

definition digit_char :: "nat \<Rightarrow> char" where
  "digit_char d = ''0123456789'' ! d"

fun str_nat :: "nat \<Rightarrow> string" where
  "str_nat n = (if n < 10 then [digit_char n] else str_nat (n div 10) @ [digit_char (n mod 10)])"

declare str_nat.simps [simp del]

section \<open>Effects\<close>

text \<open>
  What the script does to the outside before it writes its file is a list of events, in
  the order of the calls: a line handed to \<^verbatim>\<open>log\<close> with its \<^verbatim>\<open>detail\<close> flag, an HTTP request
  for an archive, and the chunk reader being asked for its next chunk (with the set of
  identifiers outstanding at that moment, which makes the call log of the chunk source a
  value).
\<close>

datatype message =
    Downloading string
  | Finished_downloading string
  | Parsing string
  | Loaded nat string
  | No_relevant_ids
  | Scanning_chunks
  | Processed nat nat
  | Found_all
  | Warning_not_found nat
  | Matched nat
  | Using_cached
  | Building
  | Merging
  | Applying_filters
  | Collecting_ids
  | Unique_ids nat
  | Disambiguating
  | No_relevant_people
  | Building_lookup
  | Writing_csv

datatype error = TransportError string | ValueError | AttributeError | InvalidIndexError

record person_row =
  nconst :: "string option"
  primaryName :: "string option"

text \<open>The columns of the CSV file: the merged row without its key, type, adult flag and end year.\<close>

record 'f csv_row =
  csv_primaryTitle :: "string option"
  csv_originalTitle :: "string option"
  csv_startYear :: "int option"
  csv_runtimeMinutes :: "int option"
  csv_genres :: "string option"
  csv_averageRating :: "'f option"
  csv_numVotes :: "int option"
  csv_directors :: "string option"
  csv_writers :: "string option"

datatype event =
    Log message bool
  | Request string
  | Pull "string set"

text \<open>
  The world between two calls: the global \<^verbatim>\<open>_VERBOSE\<close>, the file at \<^verbatim>\<open>CSV_PATH\<close> (\<open>None\<close> when
  it does not exist), the lines printed and the archives requested so far.
\<close>

record 'f world =
  VERBOSE :: bool
  csv_file :: "'f csv_row list option"
  console :: "message list"
  requested :: "string list"

text \<open>
  What the server holds: for each archive its parsed rows, or \<open>None\<close> when the request fails
  (\<^verbatim>\<open>raise_for_status\<close>). name.basics comes as the chunks the reader yields, each of up to
  250000 consecutive rows.
\<close>

record 'f remote =
  title_basics :: "basics_row list option"
  title_ratings :: "'f ratings_row list option"
  title_crew :: "crew_row list option"
  name_basics :: "person_row list list option"

definition set_verbosity :: "bool \<Rightarrow> 'f world \<Rightarrow> 'f world" where
  "set_verbosity enabled w = w\<lparr>VERBOSE := enabled\<rparr>"

definition log :: "message \<Rightarrow> bool \<Rightarrow> 'f world \<Rightarrow> 'f world" where
  "log m detail w = (if detail \<and> \<not> VERBOSE w then w else w\<lparr>console := console w @ [m]\<rparr>)"

fun perform1 :: "event \<Rightarrow> 'f world \<Rightarrow> 'f world" where
  "perform1 (Log m detail) w = log m detail w"
| "perform1 (Request name) w = w\<lparr>requested := requested w @ [name]\<rparr>"
| "perform1 (Pull s) w = w"

definition perform :: "event list \<Rightarrow> 'f world \<Rightarrow> 'f world" where
  "perform evs w = foldl (\<lambda>w e. perform1 e w) w evs"

subsection \<open>Downloading\<close>

definition download_imdb_archive :: "string \<Rightarrow> 'a option \<Rightarrow> (error + 'a) \<times> event list" where
  "download_imdb_archive name archive =
     (case archive of
        None \<Rightarrow> (Inl (TransportError name), [Log (Downloading name) False, Request name])
      | Some a \<Rightarrow> (Inr a, [Log (Downloading name) False, Request name,
                            Log (Finished_downloading name) True]))"

definition read_imdb_tsv :: "string \<Rightarrow> 'a list option \<Rightarrow> (error + 'a list) \<times> event list" where
  "read_imdb_tsv name archive =
     (case download_imdb_archive name archive of
        (Inl e, evs) \<Rightarrow> (Inl e, evs)
      | (Inr df, evs) \<Rightarrow> (Inr df, evs @ [Log (Parsing name) True, Log (Loaded (length df) name) True]))"

text \<open>
  A step that may raise, together with the events it caused: \<open>and_then\<close> runs the next step
  on the value of the first unless the first raised, and keeps the events of both.
\<close>

definition and_then ::
  "(error + 'a) \<times> 'e list \<Rightarrow> ('a \<Rightarrow> (error + 'b) \<times> 'e list) \<Rightarrow> (error + 'b) \<times> 'e list" where
  "and_then m f =
     (case m of
        (Inl e, evs) \<Rightarrow> (Inl e, evs)
      | (Inr a, evs) \<Rightarrow> (case f a of (r, evs') \<Rightarrow> (r, evs @ evs')))"

definition emit :: "'e list \<Rightarrow> (error + unit) \<times> 'e list" where
  "emit evs = (Inr (), evs)"

section \<open>The reference resolver: \<^verbatim>\<open>load_relevant_people\<close>\<close>

definition dropna_people :: "person_row list \<Rightarrow> person_row list" where
  "dropna_people chunk = filter (\<lambda>p. nconst p \<noteq> None \<and> primaryName p \<noteq> None) chunk"

definition isin :: "string option \<Rightarrow> string set \<Rightarrow> bool" where
  "isin c s = (case c of None \<Rightarrow> False | Some v \<Rightarrow> v \<in> s)"

text \<open>
  The state of the scanning loop: the local variables, and the events so far. The script
  uses its sets of identifiers through membership (\<^verbatim>\<open>isin\<close>), difference, emptiness and
  size only, never through the order in which Python would iterate them, so they are
  sets here; the build is written out with that order further down, and shown to come
  to the same.
\<close>

record scan_state =
  frames :: "person_row list list"
  remaining_ids :: "string set"
  total_matched :: nat
  trace :: "event list"

definition add_events :: "event list \<Rightarrow> scan_state \<Rightarrow> scan_state" where
  "add_events evs st = st\<lparr>trace := trace st @ evs\<rparr>"

text \<open>One pass through the body of the \<^verbatim>\<open>for\<close> loop, up to the test for the early exit.\<close>

definition scan_chunk :: "nat \<Rightarrow> person_row list \<Rightarrow> scan_state \<Rightarrow> scan_state" where
  "scan_chunk idx chunk st =
     (let matches = filter (\<lambda>p. isin (nconst p) (remaining_ids st)) (dropna_people chunk);
          st1 = (if matches \<noteq> [] then
                   st\<lparr>frames := frames st @ [matches],
                      remaining_ids := remaining_ids st - set (List.map_filter nconst matches),
                      total_matched := total_matched st + length matches\<rparr>
                 else st)
      in if idx mod 10 = 0
         then add_events [Log (Processed (idx * 250000) (card (remaining_ids st1))) True] st1
         else st1)"

text \<open>
  The loop \<^verbatim>\<open>for idx, chunk in enumerate(reader, start=1)\<close>. Each round first asks the reader
  for a chunk, also the round that finds the reader exhausted; the \<^verbatim>\<open>break\<close> leaves the
  loop without asking again.
\<close>

fun scan_chunks :: "nat \<Rightarrow> person_row list list \<Rightarrow> scan_state \<Rightarrow> scan_state" where
  "scan_chunks idx [] st = add_events [Pull (remaining_ids st)] st"
| "scan_chunks idx (chunk # reader) st =
     (let st2 = scan_chunk idx chunk (add_events [Pull (remaining_ids st)] st)
      in if remaining_ids st2 = {} then add_events [Log Found_all True] st2
         else scan_chunks (Suc idx) reader st2)"

text \<open>The locals before the loop; the line logged just before is the first event.\<close>

definition scan_init :: "string set \<Rightarrow> scan_state" where
  "scan_init relevant_ids =
     \<lparr>frames = [], remaining_ids = relevant_ids, total_matched = 0,
      trace = [Log Scanning_chunks True]\<rparr>"

definition load_relevant_people ::
  "string set \<Rightarrow> person_row list list option \<Rightarrow> (error + person_row list) \<times> event list" where
  "load_relevant_people relevant_ids archive =
     (if relevant_ids = {} then (Inr [], [Log No_relevant_ids True])
      else and_then (download_imdb_archive ''name.basics'' archive) (\<lambda>reader.
        let st = scan_chunks 1 reader (scan_init relevant_ids);
            relevant_people = (if frames st \<noteq> [] then concat (frames st) else [])
        in (Inr relevant_people,
            trace st
            @ (if remaining_ids st \<noteq> {}
               then [Log (Warning_not_found (card (remaining_ids st))) False] else [])
            @ [Log (Matched (total_matched st)) True])))"

text \<open>
  For the statements about the resolver: the identifiers a chunk offers (rows that survive
  \<^verbatim>\<open>dropna\<close>), and the outstanding sets recorded with the requests for a chunk.
\<close>

definition ids_of :: "person_row list \<Rightarrow> string set" where
  "ids_of chunk = set (List.map_filter nconst (dropna_people chunk))"

definition pull_sets :: "event list \<Rightarrow> string set list" where
  "pull_sets evs = List.map_filter (\<lambda>e. case e of Pull s \<Rightarrow> Some s | _ \<Rightarrow> None) evs"

text \<open>
  For the statement about repeated identifiers: the rows of an identifier, with identifier
  and name present, in the first chunk that has any.
\<close>

fun first_rows :: "string \<Rightarrow> person_row list list \<Rightarrow> person_row list" where
  "first_rows i [] = []"
| "first_rows i (chunk # reader) =
     (case filter (\<lambda>p. nconst p = Some i) (dropna_people chunk) of
        [] \<Rightarrow> first_rows i reader
      | rows \<Rightarrow> rows)"

section \<open>Disambiguating names\<close>

text \<open>
  \<^verbatim>\<open>value_counts()\<close> counts every name that is not NA; \<open>dups\<close> are the names counted more than
  once. pandas orders the counts by size, which the membership test in \<^verbatim>\<open>disambiguate\<close>
  does not see.
\<close>

definition value_counts :: "string option list \<Rightarrow> (string \<times> nat) list" where
  "value_counts col = map (\<lambda>v. (v, count_list col (Some v))) (remdups (List.map_filter id col))"

definition dups_of :: "string option list \<Rightarrow> string list" where
  "dups_of col = map fst (filter (\<lambda>(v, c). 1 < c) (value_counts col))"

text \<open>\<^verbatim>\<open>counter.get(name, 0)\<close>.\<close>

definition counter_get :: "(string \<rightharpoonup> nat) \<Rightarrow> string \<Rightarrow> nat" where
  "counter_get counter n = (case counter n of None \<Rightarrow> 0 | Some c \<Rightarrow> c)"

text \<open>The closure \<^verbatim>\<open>disambiguate\<close>: the dictionary \<^verbatim>\<open>counter\<close> goes in and comes out.\<close>

definition disambiguate ::
  "string list \<Rightarrow> (string \<rightharpoonup> nat) \<Rightarrow> string option \<Rightarrow> string option \<times> (string \<rightharpoonup> nat)" where
  "disambiguate dups counter name =
     (case name of
        None \<Rightarrow> (None, counter)
      | Some n \<Rightarrow>
          if n \<notin> set dups then (Some n, counter)
          else (let k = counter_get counter n + 1
                in (Some (n @ '' ('' @ str_nat k @ '')''), counter(n \<mapsto> k))))"

text \<open>\<^verbatim>\<open>Series.apply(disambiguate)\<close>: the cells one after the other, from the first.\<close>

fun apply_disambiguate ::
  "string list \<Rightarrow> (string \<rightharpoonup> nat) \<Rightarrow> string option list \<Rightarrow> string option list" where
  "apply_disambiguate dups counter [] = []"
| "apply_disambiguate dups counter (name # names) =
     (case disambiguate dups counter name of
        (name', counter') \<Rightarrow> name' # apply_disambiguate dups counter' names)"

definition disambiguate_names :: "person_row list \<Rightarrow> person_row list" where
  "disambiguate_names relevant_people =
     (let col = map primaryName relevant_people;
          dups = dups_of col
      in map (\<lambda>(p, name). p\<lparr>primaryName := name\<rparr>)
           (zip relevant_people (apply_disambiguate dups Map.empty col)))"

definition name_map_of :: "person_row list \<Rightarrow> (string \<times> string) list" where
  "name_map_of relevant_people =
     List.map_filter (\<lambda>p. case (nconst p, primaryName p) of
                             (Some i, Some n) \<Rightarrow> Some (i, n) | _ \<Rightarrow> None) relevant_people"

section \<open>Rewriting identifier lists: \<^verbatim>\<open>ids_to_names\<close>\<close>

text \<open>
  A series is its cells under their labels. The frames of this script carry each label
  once (\<open>range_index\<close>, then a filter), and the theorems on series assume that.
\<close>

type_synonym 'a series = "(nat \<times> 'a option) list"

definition dropna_series :: "'a series \<Rightarrow> (nat \<times> 'a) list" where
  "dropna_series s = List.map_filter (\<lambda>(l, c). map_option (Pair l) c) s"

definition explode :: "(nat \<times> string list) list \<Rightarrow> string series" where
  "explode s = concat (map (\<lambda>(l, ts). if ts = [] then [(l, None)]
                                        else map (\<lambda>t. (l, Some t)) ts) s)"

text \<open>
  \<^verbatim>\<open>Series.map(mapping)\<close> with a series as the mapping looks every value up in the index
  of the mapping, which pandas refuses when that index holds a key twice.
\<close>

definition map_series :: "string series \<Rightarrow> (string \<times> string) list \<Rightarrow> error + string series" where
  "map_series s mapping =
     (if \<not> distinct (map fst mapping) then Inl InvalidIndexError
      else Inr (map (\<lambda>(l, t). (l, case t of None \<Rightarrow> None | Some k \<Rightarrow> map_of mapping k)) s))"

text \<open>\<^verbatim>\<open>groupby(level=0).agg(",".join)\<close>: one row per label, labels ascending.\<close>

definition groupby_join :: "(nat \<times> string) list \<Rightarrow> (nat \<times> string) list" where
  "groupby_join s =
     map (\<lambda>l. (l, join_str '','' (map snd (filter (\<lambda>(l', v). l' = l) s))))
       (sort (remdups (map fst s)))"

definition ids_to_names :: "string series \<Rightarrow> (string \<times> string) list \<Rightarrow> error + string series" where
  "ids_to_names series mapping =
     (let nonnull = dropna_series series;
          exploded = explode (map (\<lambda>(l, s). (l, split_str CHR '','' s)) nonnull)
      in case map_series exploded mapping of
           Inl e \<Rightarrow> Inl e
         | Inr looked \<Rightarrow>
             (let mapped = groupby_join (dropna_series looked)
              in Inr (map (\<lambda>(l, c). (l, map_of mapped l)) series)))"

text \<open>
  Two names for the proofs: the names the mapping has for the tokens of one cell, and the
  labelled names after the lookup and the second \<^verbatim>\<open>dropna\<close>, before the grouping.
\<close>

definition cell_names :: "(string \<times> string) list \<Rightarrow> string \<Rightarrow> string list" where
  "cell_names mapping s = List.map_filter (map_of mapping) (split_str CHR '','' s)"

definition resolved :: "(string \<times> string) list \<Rightarrow> string series \<Rightarrow> (nat \<times> string) list" where
  "resolved mapping series =
     dropna_series (map (\<lambda>(l, t). (l, case t of None \<Rightarrow> None | Some k \<Rightarrow> map_of mapping k))
       (explode (map (\<lambda>(l, s). (l, split_str CHR '','' s)) (dropna_series series))))"

section \<open>The build: \<^verbatim>\<open>build_imdb_csv\<close>\<close>

text \<open>
  \<^verbatim>\<open>read_imdb_tsv\<close> names no dtype for the title tables, so pandas reads a column of text that
  has rows and only NA cells as float64, and any other column of text as object.
\<close>

datatype dtype = Float64 | Object

definition column_dtype :: "string option list \<Rightarrow> dtype" where
  "column_dtype col = (if col \<noteq> [] \<and> list_all (\<lambda>c. c = None) col then Float64 else Object)"

text \<open>
  \<^verbatim>\<open>merge\<close> looks at the two key columns before it joins them. When both have rows and their
  dtypes differ, one is a float64 column and the other an object column, which pandas
  refuses with ValueError when the object column holds text. The keys are given with their
  dtypes because the key of the first merge's result has the dtype of its left key, also
  when the rows that are left of it hold no text.
\<close>

definition merge_key_error ::
  "dtype \<Rightarrow> string option list \<Rightarrow> dtype \<Rightarrow> string option list \<Rightarrow> bool" where
  "merge_key_error ldt lk rdt rk =
     (lk \<noteq> [] \<and> rk \<noteq> [] \<and> ldt \<noteq> rdt \<and> list_ex (\<lambda>k. k \<noteq> None) (lk @ rk))"

definition check_merge_keys ::
  "dtype \<Rightarrow> string option list \<Rightarrow> dtype \<Rightarrow> string option list \<Rightarrow> error + unit" where
  "check_merge_keys ldt lk rdt rk = (if merge_key_error ldt lk rdt rk then Inl ValueError else Inr ())"

text \<open>
  The director and writer identifiers of the filtered titles. The merges and the filter
  keep the dtype a column has in title.crew, and the accessor \<^verbatim>\<open>.str\<close> raises AttributeError
  on a float64 column, whatever rows are left of it.
\<close>

definition column_ids :: "dtype \<Rightarrow> string option list \<Rightarrow> error + string list" where
  "column_ids dt col =
     (if dt = Float64 then Inl AttributeError
      else Inr (filter (\<lambda>t. t \<noteq> [])
             (map strip (concat (map (split_str CHR '','') (List.map_filter id col))))))"

text \<open>The loop over the two columns, the directors first.\<close>

definition collect_ids :: "dtype \<Rightarrow> dtype \<Rightarrow> 'f title_row frame \<Rightarrow> error + string set" where
  "collect_ids directors_dtype writers_dtype df =
     (case column_ids directors_dtype (map (\<lambda>(l, r). directors r) df) of
        Inl e \<Rightarrow> Inl e
      | Inr ds \<Rightarrow>
          (case column_ids writers_dtype (map (\<lambda>(l, r). writers r) df) of
             Inl e \<Rightarrow> Inl e
           | Inr ws \<Rightarrow> Inr (set ds \<union> set ws)))"

definition set_directors :: "'f title_row frame \<Rightarrow> string series \<Rightarrow> 'f title_row frame" where
  "set_directors df out = map (\<lambda>((l, r), (l', c)). (l, r\<lparr>directors := c\<rparr>)) (zip df out)"

definition set_writers :: "'f title_row frame \<Rightarrow> string series \<Rightarrow> 'f title_row frame" where
  "set_writers df out = map (\<lambda>((l, r), (l', c)). (l, r\<lparr>writers := c\<rparr>)) (zip df out)"

definition drop_columns :: "'f title_row \<Rightarrow> 'f csv_row" where
  "drop_columns r =
     \<lparr>csv_primaryTitle = primaryTitle r, csv_originalTitle = originalTitle r,
      csv_startYear = startYear r, csv_runtimeMinutes = runtimeMinutes r,
      csv_genres = genres r, csv_averageRating = averageRating r, csv_numVotes = numVotes r,
      csv_directors = directors r, csv_writers = writers r\<rparr>"

definition CSV_PATH :: string where
  "CSV_PATH = ''imdb_movies.csv''"

definition lift_error :: "error + 'a \<Rightarrow> (error + 'a) \<times> 'e list" where
  "lift_error r = (r, [])"

text \<open>
  The body of \<^verbatim>\<open>build_imdb_csv\<close> after the test for the cached file, up to the table that
  is handed to \<^verbatim>\<open>to_csv\<close>. The file is that table without its labels; the casts of
  \<^verbatim>\<open>astype\<close> and the text of the file are pandas' own.
\<close>

definition build_pipeline :: "'f remote \<Rightarrow> (error + 'f csv_row list) \<times> event list" where
  "build_pipeline remote =
     and_then (emit [Log Building False]) (\<lambda>_.
     and_then (read_imdb_tsv ''title.basics'' (title_basics remote)) (\<lambda>basics.
     and_then (read_imdb_tsv ''title.ratings'' (title_ratings remote)) (\<lambda>ratings.
     and_then (read_imdb_tsv ''title.crew'' (title_crew remote)) (\<lambda>crew.
     and_then (emit [Log Merging True]) (\<lambda>_.
     and_then (lift_error (check_merge_keys
                 (column_dtype (map tconst basics)) (map tconst basics)
                 (column_dtype (map r_tconst ratings)) (map r_tconst ratings))) (\<lambda>_.
     and_then (lift_error (check_merge_keys
                 (column_dtype (map tconst basics)) (map tconst (merge_inner basics ratings))
                 (column_dtype (map c_tconst crew)) (map c_tconst crew))) (\<lambda>_.
     and_then (emit [Log Applying_filters True, Log Collecting_ids True]) (\<lambda>_.
     let df = title_filter (merge_titles basics ratings crew) in
     and_then (lift_error (collect_ids (column_dtype (map c_directors crew))
                             (column_dtype (map c_writers crew)) df)) (\<lambda>relevant_ids.
     and_then (emit [Log (Unique_ids (card relevant_ids)) True]) (\<lambda>_.
     and_then (load_relevant_people relevant_ids (name_basics remote)) (\<lambda>relevant_people.
     and_then (emit [Log (if relevant_people \<noteq> [] then Disambiguating else No_relevant_people) True,
                     Log Building_lookup True]) (\<lambda>_.
     let relevant_people' =
           (if relevant_people \<noteq> [] then disambiguate_names relevant_people else relevant_people);
         name_map = name_map_of relevant_people'
     in
     and_then (lift_error (ids_to_names (map (\<lambda>(l, r). (l, directors r)) df) name_map)) (\<lambda>ds.
     let df1 = set_directors df ds in
     and_then (lift_error (ids_to_names (map (\<lambda>(l, r). (l, writers r)) df1) name_map)) (\<lambda>ws.
     let df2 = set_writers df1 ws in
     (Inr (map (\<lambda>(l, r). drop_columns r) df2), [])))))))))))))))"

definition build_imdb_csv ::
  "bool \<Rightarrow> bool \<Rightarrow> 'f remote \<Rightarrow> 'f world \<Rightarrow> (error + string) \<times> 'f world" where
  "build_imdb_csv force verbose remote w =
     (let w0 = (if VERBOSE w \<noteq> verbose then set_verbosity verbose w else w)
      in if csv_file w0 \<noteq> None \<and> \<not> force
         then (Inr CSV_PATH, perform [Log Using_cached False] w0)
         else (case build_pipeline remote of
                 (Inl e, evs) \<Rightarrow> (Inl e, perform evs w0)
               | (Inr df, evs) \<Rightarrow>
                   (Inr CSV_PATH, (log Writing_csv False (perform evs w0))\<lparr>csv_file := Some df\<rparr>)))"

text \<open>
  For the statements about a build: the archives a list of events asks for, and the lines
  it prints under a given setting of the verbose flag.
\<close>

definition requests_of :: "event list \<Rightarrow> string list" where
  "requests_of evs = List.map_filter (\<lambda>e. case e of Request name \<Rightarrow> Some name | _ \<Rightarrow> None) evs"

definition printed :: "bool \<Rightarrow> event list \<Rightarrow> message list" where
  "printed verbose evs =
     List.map_filter (\<lambda>e. case e of Log m detail \<Rightarrow> if detail \<and> \<not> verbose then None else Some m
                                | _ \<Rightarrow> None) evs"

section \<open>The sets as Python keeps them\<close>

text \<open>
  Python keeps a set in a hash table and iterates over it in the order of the table, which
  for strings changes with the hash seed of the process. To see what a run can take from
  that order, the part of the build that handles sets is written once more with a set as
  the interpreter has it: the list of its elements, each once, in the order of iteration.
  The function \<open>h\<close> stands for the hash seed of a run: it turns the elements in the order
  in which they were put into the table into the order in which the table hands them out.
\<close>

type_synonym py_set = "string list"

definition hash_order :: "(string list \<Rightarrow> py_set) \<Rightarrow> bool" where
  "hash_order h = (\<forall>xs. distinct xs \<longrightarrow> distinct (h xs) \<and> set (h xs) = set xs)"

text \<open>\<^verbatim>\<open>s.add(x)\<close> for one element, \<^verbatim>\<open>s.update(xs)\<close>, \<^verbatim>\<open>set(xs)\<close> and \<^verbatim>\<open>s.difference_update(t)\<close>.\<close>

definition py_add :: "string list \<Rightarrow> string \<Rightarrow> string list" where
  "py_add s x = (if x \<in> set s then s else s @ [x])"

definition py_update :: "(string list \<Rightarrow> py_set) \<Rightarrow> py_set \<Rightarrow> string list \<Rightarrow> py_set" where
  "py_update h s xs = h (foldl py_add s xs)"

definition py_set :: "(string list \<Rightarrow> py_set) \<Rightarrow> string list \<Rightarrow> py_set" where
  "py_set h xs = py_update h [] xs"

definition py_difference_update :: "(string list \<Rightarrow> py_set) \<Rightarrow> py_set \<Rightarrow> py_set \<Rightarrow> py_set" where
  "py_difference_update h s t = h (filter (\<lambda>x. x \<notin> set t) s)"

text \<open>Lines 181 to 192: \<^verbatim>\<open>relevant_ids = set()\<close>, then one \<^verbatim>\<open>update\<close> for each of the two columns.\<close>

definition collect_ids_hashed ::
  "(string list \<Rightarrow> py_set) \<Rightarrow> dtype \<Rightarrow> dtype \<Rightarrow> 'f title_row frame \<Rightarrow> error + py_set" where
  "collect_ids_hashed h directors_dtype writers_dtype df =
     (case column_ids directors_dtype (map (\<lambda>(l, r). directors r) df) of
        Inl e \<Rightarrow> Inl e
      | Inr ds \<Rightarrow>
          (case column_ids writers_dtype (map (\<lambda>(l, r). writers r) df) of
             Inl e \<Rightarrow> Inl e
           | Inr ws \<Rightarrow> Inr (py_update h (py_update h [] ds) ws)))"

text \<open>
  The scanning loop of \<^verbatim>\<open>load_relevant_people\<close> over such sets. \<^verbatim>\<open>isin\<close> asks for membership,
  \<^verbatim>\<open>len\<close> for the number of elements; the event for a request of a chunk records the
  outstanding identifiers as a set, as before.
\<close>

record hashed_state =
  h_frames :: "person_row list list"
  h_remaining_ids :: py_set
  h_total_matched :: nat
  h_trace :: "event list"

definition scan_chunk_hashed ::
  "(string list \<Rightarrow> py_set) \<Rightarrow> nat \<Rightarrow> person_row list \<Rightarrow> hashed_state \<Rightarrow> hashed_state" where
  "scan_chunk_hashed h idx chunk st =
     (let matches = filter (\<lambda>p. isin (nconst p) (set (h_remaining_ids st))) (dropna_people chunk);
          st1 = (if matches \<noteq> [] then
                   st\<lparr>h_frames := h_frames st @ [matches],
                      h_remaining_ids :=
                        py_difference_update h (h_remaining_ids st)
                          (py_set h (List.map_filter nconst matches)),
                      h_total_matched := h_total_matched st + length matches\<rparr>
                 else st)
      in if idx mod 10 = 0
         then st1\<lparr>h_trace := h_trace st1
                    @ [Log (Processed (idx * 250000) (length (h_remaining_ids st1))) True]\<rparr>
         else st1)"

fun scan_chunks_hashed ::
  "(string list \<Rightarrow> py_set) \<Rightarrow> nat \<Rightarrow> person_row list list \<Rightarrow> hashed_state \<Rightarrow> hashed_state" where
  "scan_chunks_hashed h idx [] st = st\<lparr>h_trace := h_trace st @ [Pull (set (h_remaining_ids st))]\<rparr>"
| "scan_chunks_hashed h idx (chunk # reader) st =
     (let st2 = scan_chunk_hashed h idx chunk
                  (st\<lparr>h_trace := h_trace st @ [Pull (set (h_remaining_ids st))]\<rparr>)
      in if h_remaining_ids st2 = [] then st2\<lparr>h_trace := h_trace st2 @ [Log Found_all True]\<rparr>
         else scan_chunks_hashed h (Suc idx) reader st2)"

definition load_relevant_people_hashed ::
  "(string list \<Rightarrow> py_set) \<Rightarrow> py_set \<Rightarrow> person_row list list option
     \<Rightarrow> (error + person_row list) \<times> event list" where
  "load_relevant_people_hashed h relevant_ids archive =
     (if relevant_ids = [] then (Inr [], [Log No_relevant_ids True])
      else and_then (download_imdb_archive ''name.basics'' archive) (\<lambda>reader.
        let st = scan_chunks_hashed h 1 reader
                   \<lparr>h_frames = [], h_remaining_ids = py_set h relevant_ids, h_total_matched = 0,
                    h_trace = [Log Scanning_chunks True]\<rparr>;
            relevant_people = (if h_frames st \<noteq> [] then concat (h_frames st) else [])
        in (Inr relevant_people,
            h_trace st
            @ (if h_remaining_ids st \<noteq> []
               then [Log (Warning_not_found (length (h_remaining_ids st))) False] else [])
            @ [Log (Matched (h_total_matched st)) True])))"

text \<open>
  What such a state is when each set is taken for the set of its elements: a state of the
  loop as it is written above.
\<close>

definition scan_state_of :: "hashed_state \<Rightarrow> scan_state" where
  "scan_state_of st =
     \<lparr>frames = h_frames st, remaining_ids = set (h_remaining_ids st),
      total_matched = h_total_matched st, trace = h_trace st\<rparr>"

text \<open>\<^verbatim>\<open>build_imdb_csv\<close> with these sets: the same steps, around the two functions above.\<close>

definition build_pipeline_hashed ::
  "(string list \<Rightarrow> py_set) \<Rightarrow> 'f remote \<Rightarrow> (error + 'f csv_row list) \<times> event list" where
  "build_pipeline_hashed h remote =
     and_then (emit [Log Building False]) (\<lambda>_.
     and_then (read_imdb_tsv ''title.basics'' (title_basics remote)) (\<lambda>basics.
     and_then (read_imdb_tsv ''title.ratings'' (title_ratings remote)) (\<lambda>ratings.
     and_then (read_imdb_tsv ''title.crew'' (title_crew remote)) (\<lambda>crew.
     and_then (emit [Log Merging True]) (\<lambda>_.
     and_then (lift_error (check_merge_keys
                 (column_dtype (map tconst basics)) (map tconst basics)
                 (column_dtype (map r_tconst ratings)) (map r_tconst ratings))) (\<lambda>_.
     and_then (lift_error (check_merge_keys
                 (column_dtype (map tconst basics)) (map tconst (merge_inner basics ratings))
                 (column_dtype (map c_tconst crew)) (map c_tconst crew))) (\<lambda>_.
     and_then (emit [Log Applying_filters True, Log Collecting_ids True]) (\<lambda>_.
     let df = title_filter (merge_titles basics ratings crew) in
     and_then (lift_error (collect_ids_hashed h (column_dtype (map c_directors crew))
                             (column_dtype (map c_writers crew)) df)) (\<lambda>relevant_ids.
     and_then (emit [Log (Unique_ids (length relevant_ids)) True]) (\<lambda>_.
     and_then (load_relevant_people_hashed h relevant_ids (name_basics remote)) (\<lambda>relevant_people.
     and_then (emit [Log (if relevant_people \<noteq> [] then Disambiguating else No_relevant_people) True,
                     Log Building_lookup True]) (\<lambda>_.
     let relevant_people' =
           (if relevant_people \<noteq> [] then disambiguate_names relevant_people else relevant_people);
         name_map = name_map_of relevant_people'
     in
     and_then (lift_error (ids_to_names (map (\<lambda>(l, r). (l, directors r)) df) name_map)) (\<lambda>ds.
     let df1 = set_directors df ds in
     and_then (lift_error (ids_to_names (map (\<lambda>(l, r). (l, writers r)) df1) name_map)) (\<lambda>ws.
     let df2 = set_writers df1 ws in
     (Inr (map (\<lambda>(l, r). drop_columns r) df2), [])))))))))))))))"

definition build_imdb_csv_hashed ::
  "(string list \<Rightarrow> py_set) \<Rightarrow> bool \<Rightarrow> bool \<Rightarrow> 'f remote \<Rightarrow> 'f world
     \<Rightarrow> (error + string) \<times> 'f world" where
  "build_imdb_csv_hashed h force verbose remote w =
     (let w0 = (if VERBOSE w \<noteq> verbose then set_verbosity verbose w else w)
      in if csv_file w0 \<noteq> None \<and> \<not> force
         then (Inr CSV_PATH, perform [Log Using_cached False] w0)
         else (case build_pipeline_hashed h remote of
                 (Inl e, evs) \<Rightarrow> (Inl e, perform evs w0)
               | (Inr df, evs) \<Rightarrow>
                   (Inr CSV_PATH, (log Writing_csv False (perform evs w0))\<lparr>csv_file := Some df\<rparr>)))"

section \<open>Sample rows\<close>

text \<open>Small rows for the theorems that run the definitions on concrete tables.\<close>

definition sample_basics :: "string \<Rightarrow> string \<Rightarrow> int \<Rightarrow> int option \<Rightarrow> basics_row" where
  "sample_basics t ty adult year =
     \<lparr>tconst = Some t, titleType = Some ty, primaryTitle = Some ''Title'',
      originalTitle = Some ''Title'', isAdult = Some adult, startYear = year,
      endYear = None, runtimeMinutes = Some 90, genres = Some ''Drama''\<rparr>"

definition sample_ratings :: "string \<Rightarrow> int \<Rightarrow> nat ratings_row" where
  "sample_ratings t votes = \<lparr>r_tconst = Some t, r_averageRating = Some 7, r_numVotes = Some votes\<rparr>"

definition sample_crew :: "string \<Rightarrow> string option \<Rightarrow> string option \<Rightarrow> crew_row" where
  "sample_crew t d w = \<lparr>c_tconst = Some t, c_directors = d, c_writers = w\<rparr>"

definition sample_title :: "string \<Rightarrow> string \<Rightarrow> int \<Rightarrow> int option \<Rightarrow> int \<Rightarrow> nat title_row" where
  "sample_title t ty adult year votes =
     with_crew (with_ratings (sample_basics t ty adult year) (sample_ratings t votes)) None None"

definition sample_crewed :: "string \<Rightarrow> string option \<Rightarrow> string option \<Rightarrow> nat title_row" where
  "sample_crewed t d w =
     with_crew (with_ratings (sample_basics t ''movie'' 0 (Some 1999)) (sample_ratings t 1500)) d w"

definition person :: "string \<Rightarrow> string \<Rightarrow> person_row" where
  "person i n = \<lparr>nconst = Some i, primaryName = Some n\<rparr>"

text \<open>
  Two titles, of which the second has too few votes; the two directors of the first have
  the same name, and its writer wrote it alone.
\<close>

definition sample_remote :: "nat remote" where
  "sample_remote =
     \<lparr>title_basics = Some [sample_basics ''tt1'' ''movie'' 0 (Some 1999),
                            sample_basics ''tt2'' ''movie'' 0 (Some 2001)],
      title_ratings = Some [sample_ratings ''tt1'' 1500, sample_ratings ''tt2'' 20],
      title_crew = Some [sample_crew ''tt1'' (Some ''p1,p2'') (Some ''p3''),
                          sample_crew ''tt2'' (Some ''p3'') None],
      name_basics = Some [[person ''p1'' ''Ann'', person ''p2'' ''Ann'', person ''p3'' ''Cy'']]\<rparr>"

definition sample_csv :: "nat csv_row list" where
  "sample_csv =
     [\<lparr>csv_primaryTitle = Some ''Title'', csv_originalTitle = Some ''Title'',
       csv_startYear = Some 1999, csv_runtimeMinutes = Some 90, csv_genres = Some ''Drama'',
       csv_averageRating = Some 7, csv_numVotes = Some 1500,
       csv_directors = Some ''Ann (1),Ann (2)'', csv_writers = Some ''Cy''\<rparr>]"

definition fresh_world :: "nat world" where
  "fresh_world = \<lparr>VERBOSE = False, csv_file = None, console = [], requested = []\<rparr>"

definition cached_world :: "nat world" where
  "cached_world = \<lparr>VERBOSE = True, csv_file = Some [], console = [], requested = []\<rparr>"

section \<open>Properties of the merge\<close>






lemma map_fst_range_index: "map fst (range_index rows) = [0..<length rows]"
  by (simp add: range_index_def)


lemma distinct_range_index: "distinct (map fst (range_index rows))"
  by (simp add: map_fst_range_index)


lemma distinct_merge_titles: "distinct (map fst (merge_titles basics ratings crew))"
  by (simp add: merge_titles_def distinct_range_index)







lemma sample_merge:
  "merge_titles [sample_basics ''tt1'' ''movie'' 0 (Some 1999), sample_basics ''tt2'' ''movie'' 0 (Some 2001),
                 sample_basics ''tt3'' ''short'' 0 None]
     [sample_ratings ''tt1'' 1500, sample_ratings ''tt3'' 20]
     [sample_crew ''tt3'' (Some ''nm1'') None]
   = [(0, sample_title ''tt1'' ''movie'' 0 (Some 1999) 1500),
      (1, with_crew (with_ratings (sample_basics ''tt3'' ''short'' 0 None) (sample_ratings ''tt3'' 20))
            (Some ''nm1'') None)]"
  by (simp add: merge_titles_def merge_left_def merge_inner_def range_index_def sample_title_def
        sample_basics_def sample_ratings_def sample_crew_def with_ratings_def with_crew_def
        upt_rec [of 0] upt_rec [of 1] upt_rec [of 2])


section \<open>Properties of the title filter\<close>

lemma title_mask_iff:
  "title_mask r \<longleftrightarrow>
     isAdult r = Some 0 \<and> titleType r = Some ''movie'' \<and> (\<exists>m. runtimeMinutes r = Some m)
     \<and> (\<exists>y. startYear r = Some y \<and> 1930 \<le> y) \<and> (\<exists>n. numVotes r = Some n \<and> 1000 \<le> n)"
  by (auto simp: title_mask_def eq_cell_def ge_cell_def notna_def split: option.splits)

lemma count_list_filter_distinct:
  "distinct (map fst df) \<Longrightarrow> p \<in> set df \<Longrightarrow> P p \<Longrightarrow> count_list (filter P df) p = 1"
proof (induction df)
  case Nil
  then show ?case by simp
next
  case (Cons q df)
  show ?case
  proof (cases "q = p")
    case True
    with Cons.prems have "p \<notin> set df"
      by (metis distinct.simps(2) image_eqI list.simps(9) set_map)
    then have "count_list (filter P df) p = 0"
      by (simp add: count_list_0_iff)
    with True Cons.prems show ?thesis by simp
  next
    case False
    with Cons show ?thesis by auto
  qed
qed

lemma distinct_title_filter:
  "distinct (map fst df) \<Longrightarrow> distinct (map fst (title_filter df))"
  unfolding title_filter_def by (rule distinct_map_filter)

text \<open>
  Claim C1. A row is in the filtered frame exactly when it is in the frame and its adult
  flag is 0, its type is "movie", its runtime is present, its start year is at least 1930
  and its vote count at least 1000. When the rows of the frame carry distinct labels, every
  row of the frame that meets the five conditions occurs exactly once in the filtered
  frame; the merged frame always carries distinct labels.
\<close>

theorem title_filter_iff:
  fixes df :: "'f title_row frame" and ratings :: "'f ratings_row list"
  shows "(\<forall>i r. (i, r) \<in> set (title_filter df) \<longleftrightarrow>
            (i, r) \<in> set df \<and> isAdult r = Some 0 \<and> titleType r = Some ''movie''
            \<and> (\<exists>m. runtimeMinutes r = Some m)
            \<and> (\<exists>y. startYear r = Some y \<and> 1930 \<le> y)
            \<and> (\<exists>n. numVotes r = Some n \<and> 1000 \<le> n))
       \<and> (distinct (map fst df) \<longrightarrow>
            (\<forall>i r. (i, r) \<in> set df \<and> isAdult r = Some 0 \<and> titleType r = Some ''movie''
               \<and> (\<exists>m. runtimeMinutes r = Some m)
               \<and> (\<exists>y. startYear r = Some y \<and> 1930 \<le> y)
               \<and> (\<exists>n. numVotes r = Some n \<and> 1000 \<le> n)
               \<longrightarrow> count_list (title_filter df) (i, r) = 1))
       \<and> distinct (map fst (merge_titles basics ratings crew))"
proof (intro conjI allI impI)
  fix i r
  show "(i, r) \<in> set (title_filter df) \<longleftrightarrow>
            (i, r) \<in> set df \<and> isAdult r = Some 0 \<and> titleType r = Some ''movie''
            \<and> (\<exists>m. runtimeMinutes r = Some m)
            \<and> (\<exists>y. startYear r = Some y \<and> 1930 \<le> y)
            \<and> (\<exists>n. numVotes r = Some n \<and> 1000 \<le> n)"
    unfolding title_filter_def using title_mask_iff [of r] by auto
next
  fix i r
  assume d: "distinct (map fst df)"
  assume *: "(i, r) \<in> set df \<and> isAdult r = Some 0 \<and> titleType r = Some ''movie''
            \<and> (\<exists>m. runtimeMinutes r = Some m)
            \<and> (\<exists>y. startYear r = Some y \<and> 1930 \<le> y)
            \<and> (\<exists>n. numVotes r = Some n \<and> 1000 \<le> n)"
  then have "title_mask r"
    using title_mask_iff [of r] by blast
  then have "case (i, r) of (i, r) \<Rightarrow> title_mask r" by simp
  with d * show "count_list (title_filter df) (i, r) = 1"
    unfolding title_filter_def by (intro count_list_filter_distinct) blast+
next
  show "distinct (map fst (merge_titles basics ratings crew))"
    by (rule distinct_merge_titles)
qed

theorem title_filter_iff_witness:
  "distinct (map fst [(0::nat, sample_title ''tt1'' ''movie'' 0 (Some 1999) 1500),
                      (1, sample_title ''tt2'' ''movie'' 0 (Some 1999) 999),
                      (2, sample_title ''tt3'' ''movie'' 0 None 5000),
                      (3, sample_title ''tt4'' ''short'' 0 (Some 1999) 5000),
                      (4, sample_title ''tt5'' ''movie'' 1 (Some 1999) 5000)])
   \<and> title_filter [(0, sample_title ''tt1'' ''movie'' 0 (Some 1999) 1500),
                   (1, sample_title ''tt2'' ''movie'' 0 (Some 1999) 999),
                   (2, sample_title ''tt3'' ''movie'' 0 None 5000),
                   (3, sample_title ''tt4'' ''short'' 0 (Some 1999) 5000),
                   (4, sample_title ''tt5'' ''movie'' 1 (Some 1999) 5000)]
     = [(0, sample_title ''tt1'' ''movie'' 0 (Some 1999) 1500)]
   \<and> count_list (title_filter [(0, sample_title ''tt1'' ''movie'' 0 (Some 1999) 1500),
                   (1, sample_title ''tt2'' ''movie'' 0 (Some 1999) 999),
                   (2, sample_title ''tt3'' ''movie'' 0 None 5000),
                   (3, sample_title ''tt4'' ''short'' 0 (Some 1999) 5000),
                   (4, sample_title ''tt5'' ''movie'' 1 (Some 1999) 5000)])
        (0, sample_title ''tt1'' ''movie'' 0 (Some 1999) 1500) = 1"
proof -
  let ?df = "[(0::nat, sample_title ''tt1'' ''movie'' 0 (Some 1999) 1500),
              (1, sample_title ''tt2'' ''movie'' 0 (Some 1999) 999),
              (2, sample_title ''tt3'' ''movie'' 0 None 5000),
              (3, sample_title ''tt4'' ''short'' 0 (Some 1999) 5000),
              (4, sample_title ''tt5'' ''movie'' 1 (Some 1999) 5000)]"
  have d: "distinct (map fst ?df)" by simp
  have f: "title_filter ?df = [(0, sample_title ''tt1'' ''movie'' 0 (Some 1999) 1500)]"
    by (simp add: title_filter_def title_mask_def eq_cell_def ge_cell_def notna_def
          sample_title_def sample_basics_def sample_ratings_def with_crew_def with_ratings_def)
  have "(0, sample_title ''tt1'' ''movie'' 0 (Some 1999) 1500) \<in> set (title_filter ?df)"
    unfolding f by simp
  with title_filter_iff [of ?df] d
  have "count_list (title_filter ?df) (0, sample_title ''tt1'' ''movie'' 0 (Some 1999) 1500) = 1"
    by blast
  with d f show ?thesis by blast
qed

section \<open>Properties of the disambiguation\<close>

lemma set_map_filter: "set (List.map_filter f xs) = {y. \<exists>x \<in> set xs. f x = Some y}"
  by (induction xs) (auto split: option.splits)

lemma set_dups_of: "n \<in> set (dups_of col) \<longleftrightarrow> 1 < count_list col (Some n)"
proof -
  have "Some n \<in> set col" if "1 < count_list col (Some n)"
    using that by (metis count_list_0_iff not_less_zero)
  moreover have "set (dups_of col) = {v. Some v \<in> set col \<and> 1 < count_list col (Some v)}"
    by (force simp: dups_of_def value_counts_def set_map_filter image_iff)
  ultimately show ?thesis by auto
qed

lemma length_apply_disambiguate:
  "length (apply_disambiguate dups counter names) = length names"
  by (induction names arbitrary: counter) (auto split: prod.splits)

lemma disambiguate_fst:
  "fst (disambiguate dups counter name) =
     (case name of None \<Rightarrow> None
      | Some n \<Rightarrow> if n \<notin> set dups then Some n
                  else Some (n @ '' ('' @ str_nat (counter_get counter n + 1) @ '')''))"
  by (simp add: disambiguate_def counter_get_def Let_def split: option.splits)

lemma disambiguate_snd:
  "counter_get (snd (disambiguate dups counter name)) n =
     counter_get counter n + (if name = Some n \<and> n \<in> set dups then 1 else 0)"
  by (auto simp: disambiguate_def counter_get_def Let_def split: option.splits)

lemma apply_disambiguate_nth:
  "i < length names \<Longrightarrow>
   apply_disambiguate dups counter names ! i =
     (case names ! i of None \<Rightarrow> None
      | Some n \<Rightarrow> if n \<notin> set dups then Some n
                  else Some (n @ '' ('' @ str_nat (counter_get counter n
                               + count_list (take (Suc i) names) (Some n)) @ '')''))"
proof (induction names arbitrary: counter i)
  case Nil
  then show ?case by simp
next
  case (Cons x xs)
  obtain y counter' where d: "disambiguate dups counter x = (y, counter')"
    by (cases "disambiguate dups counter x")
  show ?case
  proof (cases i)
    case 0
    with d disambiguate_fst [of dups counter x] show ?thesis
      by (auto split: option.splits)
  next
    case (Suc j)
    with Cons.prems have j: "j < length xs" by simp
    have c: "counter_get counter' n = counter_get counter n + (if x = Some n \<and> n \<in> set dups then 1 else 0)" for n
      using disambiguate_snd [of dups counter x n] d by simp
    show ?thesis
      using Cons.IH [OF j, of counter'] d Suc
      by (auto simp: c split: option.splits)
  qed
qed

lemma nconst_disambiguate_names:
  "map nconst (disambiguate_names ps) = map nconst ps"
  by (auto simp: disambiguate_names_def Let_def length_apply_disambiguate intro!: nth_equalityI)

lemma primaryName_disambiguate_names:
  "map primaryName (disambiguate_names ps) =
     apply_disambiguate (dups_of (map primaryName ps)) Map.empty (map primaryName ps)"
  by (auto simp: disambiguate_names_def Let_def length_apply_disambiguate intro!: nth_equalityI)

text \<open>
  Claim C3. Disambiguation keeps the identifiers and their order. A record without a name,
  and a record whose name occurs once among the records, keeps its name; a record whose
  name occurs more than once gets the name followed by " (k)", where k counts the
  occurrences of the name up to and including the record, so the first occurrence
  gets 1.
\<close>

theorem disambiguate_names_occurrence:
  "map nconst (disambiguate_names ps) = map nconst ps
   \<and> length (disambiguate_names ps) = length ps
   \<and> (\<forall>i < length ps.
        primaryName (disambiguate_names ps ! i) =
          (case primaryName (ps ! i) of
             None \<Rightarrow> None
           | Some n \<Rightarrow>
               if count_list (map primaryName ps) (Some n) = 1 then Some n
               else Some (n @ '' ('' @ str_nat (count_list (map primaryName (take (Suc i) ps)) (Some n)) @ '')'')))"
proof (intro conjI allI impI)
  show "map nconst (disambiguate_names ps) = map nconst ps"
    by (rule nconst_disambiguate_names)
  then show len: "length (disambiguate_names ps) = length ps"
    by (metis length_map)
  fix i assume i: "i < length ps"
  let ?col = "map primaryName ps"
  have "primaryName (disambiguate_names ps ! i) = map primaryName (disambiguate_names ps) ! i"
    using i len by simp
  also have "\<dots> = apply_disambiguate (dups_of ?col) Map.empty ?col ! i"
    by (simp add: primaryName_disambiguate_names)
  also have "\<dots> = (case ?col ! i of None \<Rightarrow> None
      | Some n \<Rightarrow> if n \<notin> set (dups_of ?col) then Some n
                  else Some (n @ '' ('' @ str_nat (counter_get Map.empty n
                               + count_list (take (Suc i) ?col) (Some n)) @ '')''))"
    using i by (intro apply_disambiguate_nth) simp
  also have "\<dots> = (case primaryName (ps ! i) of
             None \<Rightarrow> None
           | Some n \<Rightarrow>
               if count_list ?col (Some n) = 1 then Some n
               else Some (n @ '' ('' @ str_nat (count_list (map primaryName (take (Suc i) ps)) (Some n)) @ '')''))"
  proof (cases "primaryName (ps ! i)")
    case None
    with i show ?thesis by simp
  next
    case (Some n)
    with i have "Some n \<in> set ?col"
      by (metis length_map nth_map nth_mem)
    then have "count_list ?col (Some n) \<noteq> 0"
      unfolding count_list_0_iff by blast
    then have "0 < count_list ?col (Some n)"
      by blast
    then have "n \<notin> set (dups_of ?col) \<longleftrightarrow> count_list ?col (Some n) = 1"
      unfolding set_dups_of by auto
    with Some i show ?thesis
      by (simp add: counter_get_def take_map)
  qed
  finally show "primaryName (disambiguate_names ps ! i) =
          (case primaryName (ps ! i) of
             None \<Rightarrow> None
           | Some n \<Rightarrow>
               if count_list (map primaryName ps) (Some n) = 1 then Some n
               else Some (n @ '' ('' @ str_nat (count_list (map primaryName (take (Suc i) ps)) (Some n)) @ '')''))" .
qed

lemma str_nat_1: "str_nat (Suc 0) = ''1''"
  by (simp add: str_nat.simps digit_char_def)

lemma str_nat_2: "str_nat (Suc (Suc 0)) = ''2''"
  by (simp add: str_nat.simps digit_char_def)

lemma disambiguate_names_example: "disambiguate_names [person ''1'' ''Ann'', person ''2'' ''Bob'', person ''3'' ''Ann'']
  = [person ''1'' ''Ann (1)'', person ''2'' ''Bob'', person ''3'' ''Ann (2)'']"
  by (simp add: disambiguate_names_def dups_of_def value_counts_def person_def List.map_filter_simps
      disambiguate_def counter_get_def str_nat_1 str_nat_2)

theorem disambiguate_names_occurrence_witness:
  "(2::nat) < length [person ''1'' ''Ann'', person ''2'' ''Bob'', person ''3'' ''Ann'']
   \<and> primaryName (disambiguate_names
          [person ''1'' ''Ann'', person ''2'' ''Bob'', person ''3'' ''Ann''] ! 2) = Some ''Ann (2)''
   \<and> disambiguate_names [person ''1'' ''Ann'', person ''2'' ''Bob'', person ''3'' ''Ann'']
       = [person ''1'' ''Ann (1)'', person ''2'' ''Bob'', person ''3'' ''Ann (2)'']"
proof -
  let ?ps = "[person ''1'' ''Ann'', person ''2'' ''Bob'', person ''3'' ''Ann'']"
  have len: "(2::nat) < length ?ps" by simp
  from disambiguate_names_occurrence [of ?ps] len
  have "primaryName (disambiguate_names ?ps ! 2) =
          (case primaryName (?ps ! 2) of
             None \<Rightarrow> None
           | Some n \<Rightarrow>
               if count_list (map primaryName ?ps) (Some n) = 1 then Some n
               else Some (n @ '' ('' @ str_nat (count_list (map primaryName (take (Suc 2) ?ps)) (Some n)) @ '')''))"
    by blast
  then have "primaryName (disambiguate_names ?ps ! 2) = Some ''Ann (2)''"
    by (simp add: person_def str_nat_2)
  with len disambiguate_names_example show ?thesis by blast
qed

section \<open>Properties of the identifier list rewrite\<close>

lemma split_str_nonempty: "split_str sep s \<noteq> []"
  by (induction s) (auto split: list.splits)

lemma dropna_series_append: "dropna_series (xs @ ys) = dropna_series xs @ dropna_series ys"
  by (simp add: dropna_series_def List.map_filter_def)

lemma dropna_series_tokens:
  "dropna_series (map ((\<lambda>(l, t). (l, case t of None \<Rightarrow> None | Some k \<Rightarrow> map_of mapping k))
                        \<circ> (\<lambda>t. (l0, Some t))) ts)
     = map (Pair l0) (List.map_filter (map_of mapping) ts)"
  by (induction ts) (auto simp: dropna_series_def split: option.splits)

lemma resolved_Nil: "resolved mapping [] = []"
  by (simp add: resolved_def dropna_series_def explode_def)

lemma resolved_Cons:
  "resolved mapping ((l, c) # series) =
     (case c of None \<Rightarrow> [] | Some s \<Rightarrow> map (Pair l) (cell_names mapping s)) @ resolved mapping series"
proof (cases c)
  case None
  then show ?thesis by (simp add: resolved_def dropna_series_def)
next
  case (Some s)
  have "dropna_series ((l, Some s) # series) = (l, s) # dropna_series series"
    by (simp add: dropna_series_def)
  then show ?thesis
    using Some split_str_nonempty [of "CHR '',''" s]
    by (simp add: resolved_def explode_def dropna_series_append dropna_series_tokens cell_names_def)
qed

lemma fst_resolved: "fst ` set (resolved mapping series) \<subseteq> fst ` set series"
proof (induction series)
  case Nil
  then show ?case by (simp add: resolved_Nil)
next
  case (Cons p series)
  obtain l c where p: "p = (l, c)" by (cases p)
  show ?case
    using Cons unfolding p resolved_Cons
    by (auto split: option.splits)
qed

lemma group_resolved:
  assumes "distinct (map fst series)" and "(l, c) \<in> set series"
  shows "map snd (filter (\<lambda>(l', v). l' = l) (resolved mapping series)) =
           (case c of None \<Rightarrow> [] | Some s \<Rightarrow> cell_names mapping s)"
  using assms
proof (induction series)
  case Nil
  then show ?case by simp
next
  case (Cons p series)
  obtain l0 c0 where p: "p = (l0, c0)" by (cases p)
  from Cons.prems(1) have l0: "l0 \<notin> fst ` set series" and d: "distinct (map fst series)"
    by (simp_all add: p)
  have head: "filter (\<lambda>(l', v). l' = l) (map (Pair l0) ns) = (if l0 = l then map (Pair l0) ns else [])"
    for ns :: "string list"
    by (induction ns) auto
  show ?case
  proof (cases "(l, c) = (l0, c0)")
    case True
    with l0 have "l \<notin> fst ` set (resolved mapping series)"
      using fst_resolved [of mapping series] by blast
    then have "filter (\<lambda>(l', v). l' = l) (resolved mapping series) = []"
      by (force simp: filter_empty_conv)
    with True show ?thesis
      unfolding p resolved_Cons by (simp add: head comp_def split: option.splits)
  next
    case False
    with Cons.prems(2) have in_rest: "(l, c) \<in> set series" unfolding p by auto
    with l0 have "l0 \<noteq> l" by force
    then have "filter (\<lambda>(l', v). l' = l)
                 (case c0 of None \<Rightarrow> [] | Some s \<Rightarrow> map (Pair l0) (cell_names mapping s)) = []"
      by (simp add: head split: option.splits)
    with Cons.IH [OF d in_rest] show ?thesis
      unfolding p resolved_Cons by simp
  qed
qed

lemma map_of_groupby_join:
  "map_of (groupby_join s) l =
     (case map snd (filter (\<lambda>(l', v). l' = l) s) of
        [] \<Rightarrow> None | names \<Rightarrow> Some (join_str '','' names))"
proof -
  have m: "map_of (map (\<lambda>k. (k, f k)) ks) l = (if l \<in> set ks then Some (f l) else None)"
    for f :: "nat \<Rightarrow> string" and ks
    by (induction ks) auto
  have "l \<in> set (map fst s) \<longleftrightarrow> map snd (filter (\<lambda>(l', v). l' = l) s) \<noteq> []"
    by (force simp: filter_empty_conv)
  then show ?thesis
    unfolding groupby_join_def m by (auto split: list.splits)
qed

lemma ids_to_names_rewrite:
  assumes "distinct (map fst mapping)" and "distinct (map fst series)"
  shows "ids_to_names series mapping =
     Inr (map (\<lambda>(l, cell). (l, case cell of
                 None \<Rightarrow> None
               | Some s \<Rightarrow>
                   (case List.map_filter (map_of mapping) (split_str CHR '','' s) of
                      [] \<Rightarrow> None
                    | names \<Rightarrow> Some (join_str '','' names)))) series)"
proof -
  have "ids_to_names series mapping =
          Inr (map (\<lambda>(l, c). (l, map_of (groupby_join (resolved mapping series)) l)) series)"
    using assms(1) by (simp add: ids_to_names_def map_series_def resolved_def Let_def)
  also have "map (\<lambda>(l, c). (l, map_of (groupby_join (resolved mapping series)) l)) series =
     map (\<lambda>(l, cell). (l, case cell of
                 None \<Rightarrow> None
               | Some s \<Rightarrow>
                   (case List.map_filter (map_of mapping) (split_str CHR '','' s) of
                      [] \<Rightarrow> None
                    | names \<Rightarrow> Some (join_str '','' names)))) series"
  proof (intro map_cong refl)
    fix x assume x: "x \<in> set series"
    obtain l c where lc: "x = (l, c)" by (cases x)
    from group_resolved [OF assms(2) x [unfolded lc], of mapping]
    show "(case x of (l, c) \<Rightarrow> (l, map_of (groupby_join (resolved mapping series)) l)) =
       (case x of (l, cell) \<Rightarrow> (l, case cell of None \<Rightarrow> None
           | Some s \<Rightarrow> (case List.map_filter (map_of mapping) (split_str CHR '','' s) of
                      [] \<Rightarrow> None
                    | names \<Rightarrow> Some (join_str '','' names))))"
      unfolding lc by (simp add: map_of_groupby_join cell_names_def split: option.splits)
  qed
  finally show ?thesis .
qed

text \<open>
  Claim C4. For a mapping with one entry per identifier and a column with distinct labels,
  the rewrite succeeds and works cell by cell: an empty cell stays empty; any other cell is
  split at the commas, the tokens the mapping knows are replaced by their names and the
  others dropped, and the names are joined by commas in the order of their tokens; when
  the mapping knows none of the tokens the cell becomes empty, not the empty string.
\<close>

theorem ids_to_names_cells:
  assumes "distinct (map fst mapping)" and "distinct (map fst series)"
  shows "ids_to_names series mapping =
     Inr (map (\<lambda>(l, cell). (l, case cell of
                 None \<Rightarrow> None
               | Some s \<Rightarrow>
                   (case List.map_filter (map_of mapping) (split_str CHR '','' s) of
                      [] \<Rightarrow> None
                    | names \<Rightarrow> Some (join_str '','' names)))) series)"
  using assms by (rule ids_to_names_rewrite)

lemma ids_to_names_example: "ids_to_names [(0, Some ''n1,n2,n3''), (3, None), (5, Some ''n2'')] [(''n1'', ''Ann (1)''), (''n3'', ''Ann (2)'')]
  = Inr [(0, Some ''Ann (1),Ann (2)''), (3, None), (5, None)]"
  by (simp add: ids_to_names_def map_series_def dropna_series_def explode_def groupby_join_def Let_def)

theorem ids_to_names_cells_witness:
  "distinct (map fst [(''n1'', ''Ann (1)''), (''n3'', ''Ann (2)'')])
   \<and> distinct (map fst [(0::nat, Some ''n1,n2,n3''), (3, None), (5, Some ''n2'')])
   \<and> ids_to_names [(0, Some ''n1,n2,n3''), (3, None), (5, Some ''n2'')]
         [(''n1'', ''Ann (1)''), (''n3'', ''Ann (2)'')]
       = Inr [(0, Some ''Ann (1),Ann (2)''), (3, None), (5, None)]"
proof -
  let ?m = "[(''n1'', ''Ann (1)''), (''n3'', ''Ann (2)'')]"
  let ?s = "[(0::nat, Some ''n1,n2,n3''), (3, None), (5, Some ''n2'')]"
  have dm: "distinct (map fst ?m)" by simp
  have ds: "distinct (map fst ?s)" by simp
  have "ids_to_names ?s ?m = Inr [(0, Some ''Ann (1),Ann (2)''), (3, None), (5, None)]"
    unfolding ids_to_names_cells [OF dm ds] by simp
  with dm ds show ?thesis by blast
qed

section \<open>Properties of the reference resolver\<close>

lemma pull_sets_append: "pull_sets (xs @ ys) = pull_sets xs @ pull_sets ys"
  by (simp add: pull_sets_def List.map_filter_def)

lemma pull_sets_simps:
  "pull_sets [] = []" "pull_sets (Pull s # evs) = s # pull_sets evs"
  "pull_sets (Log m d # evs) = pull_sets evs" "pull_sets (Request n # evs) = pull_sets evs"
  by (simp_all add: pull_sets_def)

lemma matches_ids:
  "set (List.map_filter nconst (filter (\<lambda>p. isin (nconst p) R) (dropna_people chunk)))
     = ids_of chunk \<inter> R"
  by (auto simp: ids_of_def set_map_filter isin_def split: option.splits)

lemma matches_empty_iff:
  "filter (\<lambda>p. isin (nconst p) R) (dropna_people chunk) = [] \<longleftrightarrow> ids_of chunk \<inter> R = {}"
proof -
  have "ids_of chunk \<inter> R = {} \<longleftrightarrow> (\<forall>p \<in> set (dropna_people chunk). \<not> isin (nconst p) R)"
    by (force simp: ids_of_def set_map_filter isin_def dropna_people_def split: option.splits)
  then show ?thesis by (simp add: filter_empty_conv)
qed

lemma remaining_scan_chunk:
  "remaining_ids (scan_chunk idx chunk st) = remaining_ids st - ids_of chunk"
  using matches_ids [of "remaining_ids st" chunk] matches_empty_iff [of "remaining_ids st" chunk]
  by (auto simp: scan_chunk_def Let_def add_events_def)

lemma frames_scan_chunk:
  "concat (frames (scan_chunk idx chunk st)) =
     concat (frames st) @ filter (\<lambda>p. isin (nconst p) (remaining_ids st)) (dropna_people chunk)"
  by (auto simp: scan_chunk_def Let_def add_events_def)

lemma pulls_scan_chunk:
  "pull_sets (trace (scan_chunk idx chunk st)) = pull_sets (trace st)"
  by (auto simp: scan_chunk_def Let_def add_events_def pull_sets_append pull_sets_simps)

lemma add_events_fields:
  "frames (add_events evs st) = frames st" "remaining_ids (add_events evs st) = remaining_ids st"
  "total_matched (add_events evs st) = total_matched st" "trace (add_events evs st) = trace st @ evs"
  by (simp_all add: add_events_def)


lemma keys_scan_chunks:
  "set (List.map_filter nconst (concat (frames (scan_chunks idx reader st)))) =
     set (List.map_filter nconst (concat (frames st)))
     \<union> (remaining_ids st \<inter> \<Union> (ids_of ` set reader))"
proof (induction reader arbitrary: idx st)
  case Nil
  then show ?case by (simp add: add_events_fields)
next
  case (Cons chunk reader)
  let ?st1 = "add_events [Pull (remaining_ids st)] st"
  let ?st2 = "scan_chunk idx chunk ?st1"
  have r2: "remaining_ids ?st2 = remaining_ids st - ids_of chunk"
    by (simp add: remaining_scan_chunk add_events_fields)
  have map_filter_append: "List.map_filter f (xs @ ys) = List.map_filter f xs @ List.map_filter f ys"
    for f :: "person_row \<Rightarrow> string option" and xs ys
    by (simp add: List.map_filter_def)
  have k2: "set (List.map_filter nconst (concat (frames ?st2))) =
              set (List.map_filter nconst (concat (frames st))) \<union> (ids_of chunk \<inter> remaining_ids st)"
    unfolding frames_scan_chunk map_filter_append set_append matches_ids add_events_fields ..
  show ?case
  proof (cases "remaining_ids ?st2 = {}")
    case True
    then show ?thesis using r2 k2 by (auto simp: Let_def add_events_fields)
  next
    case False
    then show ?thesis using r2 k2 Cons.IH [of "Suc idx" ?st2] by (auto simp: Let_def)
  qed
qed

lemma pulls_scan_chunks_nonempty:
  "remaining_ids st \<noteq> {} \<Longrightarrow>
     set (pull_sets (trace (scan_chunks idx reader st))) \<subseteq> set (pull_sets (trace st)) \<union> {s. s \<noteq> {}}"
proof (induction reader arbitrary: idx st)
  case Nil
  then show ?case by (auto simp: add_events_fields pull_sets_append pull_sets_simps)
next
  case (Cons chunk reader)
  let ?st1 = "add_events [Pull (remaining_ids st)] st"
  let ?st2 = "scan_chunk idx chunk ?st1"
  have p2: "pull_sets (trace ?st2) = pull_sets (trace st) @ [remaining_ids st]"
    by (simp add: pulls_scan_chunk add_events_fields pull_sets_append pull_sets_simps)
  show ?case
  proof (cases "remaining_ids ?st2 = {}")
    case True
    then show ?thesis using p2 Cons.prems
      by (auto simp: Let_def add_events_fields pull_sets_append pull_sets_simps)
  next
    case False
    from Cons.IH [OF False, of "Suc idx"] p2 Cons.prems False show ?thesis
      by (auto simp: Let_def)
  qed
qed

lemma pulls_scan_chunks_bound:
  "k \<le> length reader \<Longrightarrow> 0 < k \<Longrightarrow> remaining_ids st \<subseteq> \<Union> (ids_of ` set (take k reader)) \<Longrightarrow>
     length (pull_sets (trace (scan_chunks idx reader st))) \<le> length (pull_sets (trace st)) + k"
proof (induction reader arbitrary: idx st k)
  case Nil
  then show ?case by simp
next
  case (Cons chunk reader)
  let ?st1 = "add_events [Pull (remaining_ids st)] st"
  let ?st2 = "scan_chunk idx chunk ?st1"
  have r2: "remaining_ids ?st2 = remaining_ids st - ids_of chunk"
    by (simp add: remaining_scan_chunk add_events_fields)
  have p2: "pull_sets (trace ?st2) = pull_sets (trace st) @ [remaining_ids st]"
    by (simp add: pulls_scan_chunk add_events_fields pull_sets_append pull_sets_simps)
  from Cons.prems obtain j where k: "k = Suc j" by (cases k) auto
  show ?case
  proof (cases "remaining_ids ?st2 = {}")
    case True
    then show ?thesis using p2 k
      by (simp add: Let_def add_events_fields pull_sets_append pull_sets_simps)
  next
    case False
    have sub: "remaining_ids ?st2 \<subseteq> \<Union> (ids_of ` set (take j reader))"
      using Cons.prems(3) r2 unfolding k by auto
    with False have "0 < j" by (cases j) auto
    moreover from Cons.prems(1) k have "j \<le> length reader" by simp
    ultimately have "length (pull_sets (trace (scan_chunks (Suc idx) reader ?st2)))
                        \<le> length (pull_sets (trace ?st2)) + j"
      using sub by (intro Cons.IH)
    with False p2 k show ?thesis by (simp add: Let_def)
  qed
qed

lemma load_relevant_people_Some:
  "relevant_ids \<noteq> {} \<Longrightarrow>
   load_relevant_people relevant_ids (Some reader) =
     (Inr (concat (frames (scan_chunks 1 reader (scan_init relevant_ids)))),
      [Log (Downloading ''name.basics'') False, Request ''name.basics'',
       Log (Finished_downloading ''name.basics'') True]
      @ trace (scan_chunks 1 reader (scan_init relevant_ids))
      @ (if remaining_ids (scan_chunks 1 reader (scan_init relevant_ids)) \<noteq> {}
         then [Log (Warning_not_found
                      (card (remaining_ids (scan_chunks 1 reader (scan_init relevant_ids))))) False]
         else [])
      @ [Log (Matched (total_matched (scan_chunks 1 reader (scan_init relevant_ids)))) True])"
  by (simp add: load_relevant_people_def and_then_def download_imdb_archive_def Let_def)

lemma load_relevant_people_None:
  "relevant_ids \<noteq> {} \<Longrightarrow>
   load_relevant_people relevant_ids None =
     (Inl (TransportError ''name.basics''),
      [Log (Downloading ''name.basics'') False, Request ''name.basics''])"
  by (simp add: load_relevant_people_def and_then_def download_imdb_archive_def)

lemma load_relevant_people_empty:
  "load_relevant_people {} archive = (Inr [], [Log No_relevant_ids True])"
  by (simp add: load_relevant_people_def)

lemma scan_init_fields:
  "frames (scan_init ids) = []" "remaining_ids (scan_init ids) = ids"
  "total_matched (scan_init ids) = 0" "trace (scan_init ids) = [Log Scanning_chunks True]"
  by (simp_all add: scan_init_def)

lemma pulls_load_relevant_people:
  "wanted \<noteq> {} \<Longrightarrow>
   pull_sets (snd (load_relevant_people wanted (Some reader))) =
     pull_sets (trace (scan_chunks 1 reader (scan_init wanted)))"
  by (simp add: load_relevant_people_Some pull_sets_append pull_sets_simps)

text \<open>
  Claim C5. With nothing wanted the resolver returns the empty result and its only event
  is one log line: no request for the archive, no request for a chunk. Otherwise every
  request for a chunk is made while some identifier is outstanding, and when the first k
  chunks offer all wanted identifiers, at most k chunks are requested.
\<close>

theorem load_relevant_people_requests:
  fixes wanted :: "string set" and reader :: "person_row list list"
    and archive :: "person_row list list option"
  shows "load_relevant_people {} archive = (Inr [], [Log No_relevant_ids True])
       \<and> (\<forall>s \<in> set (pull_sets (snd (load_relevant_people wanted archive))). s \<noteq> {})
       \<and> (\<forall>k. 0 < k \<and> k \<le> length reader \<and> wanted \<subseteq> \<Union> (ids_of ` set (take k reader)) \<longrightarrow>
             length (pull_sets (snd (load_relevant_people wanted (Some reader)))) \<le> k)"
proof (intro conjI ballI allI impI)
  show "load_relevant_people {} archive = (Inr [], [Log No_relevant_ids True])"
    by (rule load_relevant_people_empty)
next
  fix s
  assume s: "s \<in> set (pull_sets (snd (load_relevant_people wanted archive)))"
  show "s \<noteq> {}"
  proof (cases "wanted = {}")
    case True
    with s show ?thesis
      by (simp add: load_relevant_people_empty pull_sets_simps)
  next
    case False
    show ?thesis
    proof (cases archive)
      case None
      with s False show ?thesis
        by (simp add: load_relevant_people_None pull_sets_simps)
    next
      case (Some reader)
      with s False
      have "s \<in> set (pull_sets (trace (scan_chunks 1 reader (scan_init wanted))))"
        by (simp add: pulls_load_relevant_people)
      moreover have "remaining_ids (scan_init wanted) \<noteq> {}"
        using False by (simp add: scan_init_fields)
      ultimately show ?thesis
        using pulls_scan_chunks_nonempty [of "scan_init wanted" 1 reader]
        by (auto simp: scan_init_fields pull_sets_simps)
    qed
  qed
next
  fix k
  assume k: "0 < k \<and> k \<le> length reader \<and> wanted \<subseteq> \<Union> (ids_of ` set (take k reader))"
  show "length (pull_sets (snd (load_relevant_people wanted (Some reader)))) \<le> k"
  proof (cases "wanted = {}")
    case True
    then show ?thesis
      by (simp add: load_relevant_people_empty pull_sets_simps)
  next
    case False
    from k have "length (pull_sets (trace (scan_chunks 1 reader (scan_init wanted))))
                   \<le> length (pull_sets (trace (scan_init wanted))) + k"
      by (intro pulls_scan_chunks_bound) (simp_all add: scan_init_fields)
    with False show ?thesis
      by (simp add: pulls_load_relevant_people scan_init_fields pull_sets_simps)
  qed
qed

lemma rows_scan_chunks:
  "(\<forall>p \<in> set (concat (frames st)). nconst p \<noteq> None \<and> primaryName p \<noteq> None) \<Longrightarrow>
   \<forall>p \<in> set (concat (frames (scan_chunks idx reader st))). nconst p \<noteq> None \<and> primaryName p \<noteq> None"
proof (induction reader arbitrary: idx st)
  case Nil
  then show ?case by (simp add: add_events_fields)
next
  case (Cons chunk reader)
  let ?st1 = "add_events [Pull (remaining_ids st)] st"
  let ?st2 = "scan_chunk idx chunk ?st1"
  have inv: "\<forall>p \<in> set (concat (frames ?st2)). nconst p \<noteq> None \<and> primaryName p \<noteq> None"
    unfolding frames_scan_chunk using Cons.prems
    by (auto simp: add_events_fields dropna_people_def)
  show ?case
  proof (cases "remaining_ids ?st2 = {}")
    case True
    with inv show ?thesis by (simp add: Let_def add_events_fields)
  next
    case False
    with Cons.IH [OF inv, of "Suc idx"] show ?thesis by (simp add: Let_def)
  qed
qed





subsection \<open>The resolver on concrete datasets\<close>

lemmas resolver_defs =
  load_relevant_people_def and_then_def download_imdb_archive_def Let_def
  scan_init_def scan_chunk_def add_events_def dropna_people_def isin_def person_def insert_Diff_if


lemma resolver_example_early:
  "load_relevant_people {''A'', ''C''}
         (Some [[person ''A'' ''x'', person ''Z'' ''z''], [person ''A'' ''w'', person ''C'' ''y''],
                [person ''Q'' ''q'']])
   = (Inr [person ''A'' ''x'', person ''C'' ''y''],
      [Log (Downloading ''name.basics'') False, Request ''name.basics'',
       Log (Finished_downloading ''name.basics'') True, Log Scanning_chunks True,
       Pull {''A'', ''C''}, Pull {''C''}, Log Found_all True, Log (Matched 2) True])"
  by (simp add: resolver_defs)

theorem load_relevant_people_requests_witness:
  "(0::nat) < 2
   \<and> 2 \<le> length [[person ''A'' ''x'', person ''Z'' ''z''], [person ''A'' ''w'', person ''C'' ''y''],
                   [person ''Q'' ''q'']]
   \<and> {''A'', ''C''} \<subseteq> \<Union> (ids_of ` set (take 2
          [[person ''A'' ''x'', person ''Z'' ''z''], [person ''A'' ''w'', person ''C'' ''y''],
           [person ''Q'' ''q'']]))
   \<and> pull_sets (snd (load_relevant_people {''A'', ''C''}
         (Some [[person ''A'' ''x'', person ''Z'' ''z''], [person ''A'' ''w'', person ''C'' ''y''],
                [person ''Q'' ''q'']]))) = [{''A'', ''C''}, {''C''}]
   \<and> length (pull_sets (snd (load_relevant_people {''A'', ''C''}
         (Some [[person ''A'' ''x'', person ''Z'' ''z''], [person ''A'' ''w'', person ''C'' ''y''],
                [person ''Q'' ''q'']])))) \<le> 2"
proof -
  let ?R = "[[person ''A'' ''x'', person ''Z'' ''z''], [person ''A'' ''w'', person ''C'' ''y''],
             [person ''Q'' ''q'']]"
  let ?W = "{''A'', ''C''}"
  have k: "(0::nat) < 2 \<and> 2 \<le> length ?R \<and> ?W \<subseteq> \<Union> (ids_of ` set (take 2 ?R))"
    by (simp add: ids_of_def dropna_people_def person_def)
  with load_relevant_people_requests [of None ?W ?R]
  have "length (pull_sets (snd (load_relevant_people ?W (Some ?R)))) \<le> 2"
    by blast
  moreover have "pull_sets (snd (load_relevant_people ?W (Some ?R))) = [{''A'', ''C''}, {''C''}]"
    unfolding resolver_example_early by (simp add: pull_sets_simps)
  ultimately show ?thesis using k by blast
qed

subsection \<open>Identifiers the dataset does not have\<close>



subsection \<open>Repeated identifiers\<close>

lemma ids_of_iff: "i \<in> ids_of chunk \<longleftrightarrow> (\<exists>p \<in> set (dropna_people chunk). nconst p = Some i)"
  by (auto simp: ids_of_def set_map_filter)

lemma ids_of_rows:
  "i \<in> ids_of chunk \<longleftrightarrow> filter (\<lambda>p. nconst p = Some i) (dropna_people chunk) \<noteq> []"
  unfolding ids_of_iff by (simp add: filter_empty_conv)

lemma rows_of_matches:
  "filter (\<lambda>p. nconst p = Some i) (filter (\<lambda>p. isin (nconst p) R) rows) =
     (if i \<in> R then filter (\<lambda>p. nconst p = Some i) rows else [])"
  by (induction rows) (auto simp: isin_def)

lemma first_rows_hit:
  "i \<in> ids_of chunk \<Longrightarrow>
   first_rows i (chunk # reader) = filter (\<lambda>p. nconst p = Some i) (dropna_people chunk)"
  unfolding ids_of_rows by (simp split: list.splits)

lemma first_rows_miss: "i \<notin> ids_of chunk \<Longrightarrow> first_rows i (chunk # reader) = first_rows i reader"
  unfolding ids_of_rows by simp

lemma first_rows_scan_chunks:
  "filter (\<lambda>p. nconst p = Some i) (concat (frames (scan_chunks idx reader st))) =
     filter (\<lambda>p. nconst p = Some i) (concat (frames st))
     @ (if i \<in> remaining_ids st then first_rows i reader else [])"
proof (induction reader arbitrary: idx st)
  case Nil
  show ?case by (simp add: add_events_fields)
next
  case (Cons chunk reader)
  let ?st2 = "scan_chunk idx chunk (add_events [Pull (remaining_ids st)] st)"
  have f2: "filter (\<lambda>p. nconst p = Some i) (concat (frames ?st2)) =
      filter (\<lambda>p. nconst p = Some i) (concat (frames st))
      @ (if i \<in> remaining_ids st then filter (\<lambda>p. nconst p = Some i) (dropna_people chunk) else [])"
    by (simp add: frames_scan_chunk add_events_fields rows_of_matches del: filter_filter)
  have r2: "remaining_ids ?st2 = remaining_ids st - ids_of chunk"
    by (simp add: remaining_scan_chunk add_events_fields)
  show ?case
  proof (cases "remaining_ids ?st2 = {}")
    case True
    then have stop: "scan_chunks idx (chunk # reader) st = add_events [Log Found_all True] ?st2"
      by (simp add: Let_def)
    from True r2 have "i \<in> remaining_ids st \<longrightarrow> i \<in> ids_of chunk" by blast
    then show ?thesis
      unfolding stop add_events_fields f2 by (auto simp: first_rows_hit simp del: first_rows.simps)
  next
    case False
    then have go: "scan_chunks idx (chunk # reader) st = scan_chunks (Suc idx) reader ?st2"
      by (simp add: Let_def)
    show ?thesis
    proof (cases "i \<in> ids_of chunk")
      case True
      then show ?thesis
        unfolding go Cons.IH f2 r2 by (simp add: first_rows_hit del: first_rows.simps)
    next
      case False
      then have "filter (\<lambda>p. nconst p = Some i) (dropna_people chunk) = []"
        unfolding ids_of_rows by simp
      with False show ?thesis
        unfolding go Cons.IH f2 r2 by (simp add: first_rows_miss del: first_rows.simps)
    qed
  qed
qed

lemma distinct_map_count:
  "distinct (map f xs) \<longleftrightarrow> (\<forall>y. length (filter (\<lambda>x. f x = y) xs) \<le> 1)"
proof (induction xs)
  case Nil
  show ?case by simp
next
  case (Cons x xs)
  have none: "f x \<notin> f ` set xs \<longleftrightarrow> filter (\<lambda>z. f z = f x) xs = []"
    unfolding filter_empty_conv image_iff by metis
  show ?case
  proof
    assume d: "distinct (map f (x # xs))"
    then have a: "filter (\<lambda>z. f z = f x) xs = []" and b: "\<forall>y. length (filter (\<lambda>x. f x = y) xs) \<le> 1"
      using none Cons.IH by simp_all
    show "\<forall>y. length (filter (\<lambda>z. f z = y) (x # xs)) \<le> 1"
      using a b by auto
  next
    assume c: "\<forall>y. length (filter (\<lambda>z. f z = y) (x # xs)) \<le> 1"
    have "length (filter (\<lambda>z. f z = y) xs) \<le> 1" for y
      using c [rule_format, of y] by (simp split: if_splits)
    moreover have "filter (\<lambda>z. f z = f x) xs = []"
      using c [rule_format, of "f x"] by simp
    ultimately show "distinct (map f (x # xs))"
      using none Cons.IH by simp
  qed
qed

lemma apply_disambiguate_named:
  "None \<notin> set names \<Longrightarrow> None \<notin> set (apply_disambiguate dups counter names)"
proof (induction names arbitrary: counter)
  case Nil
  then show ?case by simp
next
  case (Cons name names)
  obtain name' counter' where d: "disambiguate dups counter name = (name', counter')"
    by (cases "disambiguate dups counter name")
  from Cons.prems obtain n where "name = Some n" by (cases name) auto
  then have "name \<noteq> None" by simp
  with disambiguate_fst [of dups counter name] d have "name' \<noteq> None"
    by (auto split: option.splits if_splits)
  moreover from Cons have "None \<notin> set (apply_disambiguate dups counter' names)" by simp
  ultimately show ?case using d by auto
qed

lemma name_map_of_keys:
  "\<forall>p \<in> set ps. nconst p \<noteq> None \<and> primaryName p \<noteq> None \<Longrightarrow>
   map (Some \<circ> fst) (name_map_of ps) = map nconst ps"
  by (induction ps) (auto simp: name_map_of_def List.map_filter_simps split: option.splits)

lemma load_relevant_people_rows:
  "\<exists>people evs.
      load_relevant_people wanted (Some reader) = (Inr people, evs)
    \<and> (\<forall>p \<in> set people. nconst p \<noteq> None \<and> primaryName p \<noteq> None)
    \<and> (\<forall>i. filter (\<lambda>p. nconst p = Some i) people = (if i \<in> wanted then first_rows i reader else []))"
proof (cases "wanted = {}")
  case True
  then show ?thesis by (simp add: load_relevant_people_empty)
next
  case False
  let ?people = "concat (frames (scan_chunks 1 reader (scan_init wanted)))"
  have rows: "\<forall>p \<in> set ?people. nconst p \<noteq> None \<and> primaryName p \<noteq> None"
    by (rule rows_scan_chunks) (simp add: scan_init_fields)
  have "filter (\<lambda>p. nconst p = Some i) ?people = (if i \<in> wanted then first_rows i reader else [])" for i
    unfolding first_rows_scan_chunks by (simp add: scan_init_fields)
  with rows show ?thesis
    unfolding load_relevant_people_Some [OF False] by blast
qed

text \<open>
  Claim C7, as the code has it. Every row the resolver returns has an identifier and a
  name. The rows it returns for an identifier are, for a wanted identifier, the rows
  (identifier and name present) of the first chunk that has such a row, all of them and
  in their order, and for any other identifier none. So the result has at most one row
  per identifier exactly when no wanted identifier has two rows in the first chunk that
  has it; rows of the identifier in later chunks, and repeated rows of identifiers that
  are not wanted, do not count. The lookup built from the result has one entry for each
  returned row, under the identifier of the row.
\<close>

theorem load_relevant_people_first_rows:
  "\<exists>people evs.
      load_relevant_people wanted (Some reader) = (Inr people, evs)
    \<and> (\<forall>p \<in> set people. nconst p \<noteq> None \<and> primaryName p \<noteq> None)
    \<and> (\<forall>i. filter (\<lambda>p. nconst p = Some i) people = (if i \<in> wanted then first_rows i reader else []))
    \<and> (distinct (map nconst people) \<longleftrightarrow> (\<forall>i \<in> wanted. length (first_rows i reader) \<le> 1))
    \<and> map (Some \<circ> fst) (name_map_of (disambiguate_names people)) = map nconst people"
proof -
  from load_relevant_people_rows [of wanted reader] obtain people evs where
    l: "load_relevant_people wanted (Some reader) = (Inr people, evs)"
    and full: "\<forall>p \<in> set people. nconst p \<noteq> None \<and> primaryName p \<noteq> None"
    and rows: "\<forall>i. filter (\<lambda>p. nconst p = Some i) people = (if i \<in> wanted then first_rows i reader else [])"
    by blast
  have "filter (\<lambda>p. nconst p = None) people = []"
    using full by (simp add: filter_empty_conv)
  then have "(\<forall>y. length (filter (\<lambda>p. nconst p = y) people) \<le> 1)
         \<longleftrightarrow> (\<forall>i. length (filter (\<lambda>p. nconst p = Some i) people) \<le> 1)"
    by (metis list.size(3) not_None_eq zero_le)
  also have "\<dots> \<longleftrightarrow> (\<forall>i \<in> wanted. length (first_rows i reader) \<le> 1)"
    using rows by auto
  finally have d: "distinct (map nconst people) \<longleftrightarrow> (\<forall>i \<in> wanted. length (first_rows i reader) \<le> 1)"
    unfolding distinct_map_count [of nconst people] .
  have ids: "map nconst (disambiguate_names people) = map nconst people"
    by (rule nconst_disambiguate_names)
  have "None \<notin> set (map primaryName people)"
    using full by auto
  then have "None \<notin> set (map primaryName (disambiguate_names people))"
    unfolding primaryName_disambiguate_names by (rule apply_disambiguate_named)
  then have names: "\<forall>p \<in> set (disambiguate_names people). primaryName p \<noteq> None"
    by (metis image_eqI image_set)
  have "\<forall>p \<in> set (disambiguate_names people). nconst p \<noteq> None"
    using full ids by (metis (no_types, lifting) image_iff image_set)
  with names have "map (Some \<circ> fst) (name_map_of (disambiguate_names people))
      = map nconst (disambiguate_names people)"
    by (intro name_map_of_keys) blast
  with l full rows d ids show ?thesis by auto
qed

text \<open>
  Claim C7 as stated fails: two rows of one identifier in the same chunk are both returned.
\<close>

theorem load_relevant_people_duplicate_counterexample:
  "fst (load_relevant_people {''A''}
          (Some [[person ''A'' ''Ann'', person ''A'' ''Bob'']]))
     = Inr [person ''A'' ''Ann'', person ''A'' ''Bob'']
   \<and> \<not> distinct (map nconst [person ''A'' ''Ann'', person ''A'' ''Bob''])"
  by (simp add: resolver_defs)

theorem load_relevant_people_first_rows_witness:
  "fst (load_relevant_people {''A'', ''B''}
          (Some [[person ''A'' ''x''], [person ''A'' ''y'', person ''A'' ''z'', person ''B'' ''b'']]))
     = Inr [person ''A'' ''x'', person ''B'' ''b'']
   \<and> first_rows ''A'' [[person ''A'' ''x''], [person ''A'' ''y'', person ''A'' ''z'', person ''B'' ''b'']]
       = [person ''A'' ''x'']
   \<and> first_rows ''B'' [[person ''A'' ''x''], [person ''A'' ''y'', person ''A'' ''z'', person ''B'' ''b'']]
       = [person ''B'' ''b'']
   \<and> first_rows ''Z'' [[person ''A'' ''x''], [person ''A'' ''y'', person ''A'' ''z'', person ''B'' ''b'']]
       = []
   \<and> distinct (map nconst [person ''A'' ''x'', person ''B'' ''b''])
   \<and> map fst (name_map_of (disambiguate_names [person ''A'' ''x'', person ''B'' ''b''])) = [''A'', ''B'']"
proof -
  let ?R = "[[person ''A'' ''x''], [person ''A'' ''y'', person ''A'' ''z'', person ''B'' ''b'']]"
  let ?W = "{''A'', ''B''}"
  have fa: "first_rows ''A'' ?R = [person ''A'' ''x'']"
    and fb: "first_rows ''B'' ?R = [person ''B'' ''b'']"
    and fz: "first_rows ''Z'' ?R = []"
    by (simp_all add: dropna_people_def person_def)
  have v: "fst (load_relevant_people ?W (Some ?R)) = Inr [person ''A'' ''x'', person ''B'' ''b'']"
    by (simp add: resolver_defs)
  from load_relevant_people_first_rows [of ?W ?R] obtain people evs where
    l: "load_relevant_people ?W (Some ?R) = (Inr people, evs)"
    and d: "distinct (map nconst people) \<longleftrightarrow> (\<forall>i \<in> ?W. length (first_rows i ?R) \<le> 1)"
    and m: "map (Some \<circ> fst) (name_map_of (disambiguate_names people)) = map nconst people"
    by blast
  from l v have p: "people = [person ''A'' ''x'', person ''B'' ''b'']" by simp
  have "\<forall>i \<in> ?W. length (first_rows i ?R) \<le> 1"
    using fa fb by simp
  with d have dist: "distinct (map nconst [person ''A'' ''x'', person ''B'' ''b''])"
    unfolding p by blast
  from m have "map Some (map fst (name_map_of (disambiguate_names [person ''A'' ''x'', person ''B'' ''b''])))
      = map Some [''A'', ''B'']"
    unfolding p by (simp add: person_def)
  then have "map fst (name_map_of (disambiguate_names [person ''A'' ''x'', person ''B'' ''b''])) = [''A'', ''B'']"
    by (simp only: inj_map_eq_map [OF inj_Some])
  with v fa fb fz dist show ?thesis by blast
qed

section \<open>Tokens with surrounding whitespace\<close>

lemma rstrip_shape:
  assumes "xs \<noteq> []" and "\<not> P (hd xs)"
  shows "\<exists>ys. rev (dropWhile P (rev xs)) = hd xs # ys"
proof -
  from assms(1) obtain x xs' where xs: "xs = x # xs'" by (cases xs) auto
  have "\<exists>zs. dropWhile P (rev xs' @ [x]) = zs @ [x]"
    using assms(2) unfolding xs by (simp add: dropWhile_append)
  then obtain zs where "dropWhile P (rev xs) = zs @ [x]"
    unfolding xs by auto
  then show ?thesis unfolding xs by simp
qed

lemma dropWhile_id: "xs = [] \<or> \<not> P (hd xs) \<Longrightarrow> dropWhile P xs = xs"
  by (cases xs) auto

lemma strip_idem: "strip (strip s) = strip s"
proof -
  let ?a = "dropWhile isspace s"
  let ?b = "rev (dropWhile isspace (rev ?a))"
  have b: "strip s = ?b" by (simp add: strip_def)
  have front: "?b = [] \<or> \<not> isspace (hd ?b)"
  proof (cases "?a = []")
    case True
    show ?thesis unfolding True by simp
  next
    case False
    then have "\<not> isspace (hd ?a)" by (rule hd_dropWhile)
    with False rstrip_shape [of ?a isspace] obtain ys where "?b = hd ?a # ys" by blast
    with \<open>\<not> isspace (hd ?a)\<close> show ?thesis by simp
  qed
  have rear: "rev ?b = [] \<or> \<not> isspace (hd (rev ?b))"
  proof (cases "dropWhile isspace (rev ?a) = []")
    case True
    show ?thesis unfolding True by simp
  next
    case False
    then have "\<not> isspace (hd (dropWhile isspace (rev ?a)))" by (rule hd_dropWhile)
    then show ?thesis by simp
  qed
  from front have "dropWhile isspace ?b = ?b" by (rule dropWhile_id)
  moreover from rear have "dropWhile isspace (rev ?b) = rev ?b" by (rule dropWhile_id)
  ultimately have "strip ?b = ?b"
    by (simp add: strip_def)
  then show ?thesis unfolding b .
qed

lemma strip_fixed_iff:
  "strip t = t \<longleftrightarrow> t = [] \<or> (\<not> isspace (hd t) \<and> \<not> isspace (last t))"
proof (cases "t = []")
  case True
  then show ?thesis by (simp add: strip_def)
next
  case False
  show ?thesis
  proof
    assume fixed: "strip t = t"
    let ?a = "dropWhile isspace t"
    have a: "?a \<noteq> []"
    proof
      assume e: "?a = []"
      have "strip t = []" unfolding strip_def e by simp
      with fixed False show False by simp
    qed
    then have ha: "\<not> isspace (hd ?a)" by (rule hd_dropWhile)
    from a rstrip_shape [of ?a isspace] ha obtain ys where "strip t = hd ?a # ys"
      unfolding strip_def by blast
    with fixed ha have front: "\<not> isspace (hd t)" by (metis list.sel(1))
    have b: "dropWhile isspace (rev ?a) \<noteq> []"
    proof
      assume e: "dropWhile isspace (rev ?a) = []"
      have "strip t = []" unfolding strip_def e by simp
      with fixed False show False by simp
    qed
    then have "\<not> isspace (hd (dropWhile isspace (rev ?a)))" by (rule hd_dropWhile)
    moreover have "hd (dropWhile isspace (rev ?a)) = last (strip t)"
      using b by (simp add: strip_def last_rev)
    ultimately have "\<not> isspace (last t)" using fixed by simp
    with front show "t = [] \<or> (\<not> isspace (hd t) \<and> \<not> isspace (last t))" by simp
  next
    assume "t = [] \<or> (\<not> isspace (hd t) \<and> \<not> isspace (last t))"
    with False have front: "\<not> isspace (hd t)" and rear: "\<not> isspace (last t)" by simp_all
    from False front have "dropWhile isspace t = t" by (cases t) auto
    moreover from False rear have "dropWhile isspace (rev t) = rev t"
      by (cases "rev t") (auto simp: last_rev [symmetric] hd_rev)
    ultimately show "strip t = t" by (simp add: strip_def)
  qed
qed

lemma column_ids_stripped:
  "column_ids dt col = Inr ts \<Longrightarrow> t \<in> set ts \<Longrightarrow> strip t = t \<and> t \<noteq> []"
  by (auto simp: column_ids_def strip_idem split: if_splits)

lemma collect_ids_Inr:
  assumes "collect_ids directors_dtype writers_dtype df = Inr wanted"
  obtains ds ws where "column_ids directors_dtype (map (\<lambda>(l, r). directors r) df) = Inr ds"
    and "column_ids writers_dtype (map (\<lambda>(l, r). writers r) df) = Inr ws"
    and "wanted = set ds \<union> set ws"
  using assms unfolding collect_ids_def by (auto split: sum.splits)

lemma collect_ids_stripped:
  assumes "collect_ids directors_dtype writers_dtype df = Inr wanted" and "t \<in> wanted"
  shows "strip t = t \<and> t \<noteq> []"
proof -
  from assms(1) obtain ds ws where
    ds: "column_ids directors_dtype (map (\<lambda>(l, r). directors r) df) = Inr ds"
    and ws: "column_ids writers_dtype (map (\<lambda>(l, r). writers r) df) = Inr ws"
    and w: "wanted = set ds \<union> set ws"
    by (rule collect_ids_Inr)
  from assms(2) w have "t \<in> set ds \<or> t \<in> set ws" by simp
  then show ?thesis
    using column_ids_stripped [OF ds] column_ids_stripped [OF ws] by blast
qed

lemma fst_name_map_of: "fst ` set (name_map_of ps) \<subseteq> {i. Some i \<in> nconst ` set ps}"
  by (force simp: name_map_of_def set_map_filter split: option.splits)

lemma load_relevant_people_wanted:
  assumes "load_relevant_people wanted archive = (Inr people, evs)"
  shows "set (List.map_filter nconst people) \<subseteq> wanted"
proof (cases "wanted = {}")
  case True
  with assms show ?thesis by (simp add: load_relevant_people_empty)
next
  case False
  show ?thesis
  proof (cases archive)
    case None
    with assms False show ?thesis by (simp add: load_relevant_people_None)
  next
    case (Some reader)
    with assms False have "people = concat (frames (scan_chunks 1 reader (scan_init wanted)))"
      by (simp add: load_relevant_people_Some)
    then show ?thesis
      using keys_scan_chunks [of 1 reader "scan_init wanted"] by (simp add: scan_init_fields)
  qed
qed

lemma name_map_keys_wanted:
  assumes "load_relevant_people wanted archive = (Inr people, evs)"
  shows "fst ` set (name_map_of (if people \<noteq> [] then disambiguate_names people else people)) \<subseteq> wanted"
proof -
  let ?people' = "if people \<noteq> [] then disambiguate_names people else people"
  have "map nconst ?people' = map nconst people"
    by (simp add: nconst_disambiguate_names)
  then have "nconst ` set ?people' = nconst ` set people"
    by (metis set_map)
  then have "fst ` set (name_map_of ?people') \<subseteq> {i. Some i \<in> nconst ` set people}"
    using fst_name_map_of [of ?people'] by simp
  also have "\<dots> = set (List.map_filter nconst people)"
    by (force simp: set_map_filter image_iff)
  also have "\<dots> \<subseteq> wanted"
    using assms by (rule load_relevant_people_wanted)
  finally show ?thesis .
qed

lemma map_filter_skip:
  "\<forall>x \<in> set xs. \<not> Q x \<longrightarrow> f x = None \<Longrightarrow> List.map_filter f (filter Q xs) = List.map_filter f xs"
  by (induction xs) (auto split: option.splits)

text \<open>
  Claim C9. A token has surrounding whitespace when its first or its last character is a
  whitespace character, which is when \<^verbatim>\<open>strip\<close> changes it. The wanted identifiers are
  stripped tokens, the lookup has keys among the wanted identifiers only, and the rewrite
  looks tokens up as they stand. So in a build a token with surrounding whitespace has no
  entry in the lookup, and every rewritten cell is the one obtained from the cell's
  tokens without surrounding whitespace alone: the other tokens are dropped, whatever
  the lookup holds for their stripped form.
\<close>

theorem unstripped_token_dropped:
  fixes df :: "'f title_row frame"
  assumes "collect_ids directors_dtype writers_dtype df = Inr wanted"
    and "load_relevant_people wanted archive = (Inr people, evs)"
    and "name_map = name_map_of (if people \<noteq> [] then disambiguate_names people else people)"
  shows "(\<forall>t. strip t \<noteq> t \<longleftrightarrow> t \<noteq> [] \<and> (isspace (hd t) \<or> isspace (last t)))
       \<and> (\<forall>t. strip t \<noteq> t \<longrightarrow> map_of name_map t = None)
       \<and> (\<forall>series out l cell.
             distinct (map fst series) \<and> ids_to_names series name_map = Inr out
             \<and> (l, Some cell) \<in> set series \<longrightarrow>
             (l, case List.map_filter (map_of name_map)
                        (filter (\<lambda>t. strip t = t) (split_str CHR '','' cell)) of
                   [] \<Rightarrow> None
                 | names \<Rightarrow> Some (join_str '','' names)) \<in> set out)"
proof (intro conjI allI impI)
  show "strip t \<noteq> t \<longleftrightarrow> t \<noteq> [] \<and> (isspace (hd t) \<or> isspace (last t))" for t
    unfolding strip_fixed_iff by blast
  have keys: "fst ` set name_map \<subseteq> wanted"
    unfolding assms(3) using assms(2) by (rule name_map_keys_wanted)
  show unmapped: "map_of name_map t = None" if "strip t \<noteq> t" for t
  proof -
    from that collect_ids_stripped [OF assms(1), of t] have "t \<notin> wanted" by blast
    with keys have "t \<notin> fst ` set name_map" by blast
    then show ?thesis by (simp add: map_of_eq_None_iff)
  qed
  fix series out l cell
  assume a: "distinct (map fst series) \<and> ids_to_names series name_map = Inr out
             \<and> (l, Some cell) \<in> set series"
  then have dm: "distinct (map fst name_map)"
    by (auto simp: ids_to_names_def map_series_def Let_def split: if_splits)
  from a have ds: "distinct (map fst series)" and inr: "ids_to_names series name_map = Inr out"
    and cell: "(l, Some cell) \<in> set series" by simp_all
  have skip: "List.map_filter (map_of name_map) (filter (\<lambda>t. strip t = t) (split_str CHR '','' cell))
          = List.map_filter (map_of name_map) (split_str CHR '','' cell)"
    by (rule map_filter_skip) (simp add: unmapped)
  from inr have "out = map (\<lambda>(l, cell). (l, case cell of
                 None \<Rightarrow> None
               | Some s \<Rightarrow>
                   (case List.map_filter (map_of name_map) (split_str CHR '','' s) of
                      [] \<Rightarrow> None
                    | names \<Rightarrow> Some (join_str '','' names)))) series"
    unfolding ids_to_names_rewrite [OF dm ds] by simp
  with cell show "(l, case List.map_filter (map_of name_map)
                        (filter (\<lambda>t. strip t = t) (split_str CHR '','' cell)) of
                   [] \<Rightarrow> None
                 | names \<Rightarrow> Some (join_str '','' names)) \<in> set out"
    unfolding skip by force
qed

lemma strip_example:
  "strip '' n2'' = ''n2''" "strip [CHR 0xA0, CHR ''n'', CHR ''2'', CHR 0x85] = ''n2''"
  by (simp_all add: strip_def isspace_def)

lemma collect_example:
  "collect_ids Object Object [(0, sample_crewed ''tt1'' (Some ''n1, n2'') (Some ''n1''))]
     = Inr {''n1'', ''n2''}"
  by (simp add: collect_ids_def column_ids_def sample_crewed_def with_crew_def strip_def isspace_def
      List.map_filter_simps insert_commute)

lemma people_example:
  "load_relevant_people {''n1'', ''n2''} (Some [[person ''n1'' ''Ann'', person ''n2'' ''Bob'']])
    = (Inr [person ''n1'' ''Ann'', person ''n2'' ''Bob''],
       [Log (Downloading ''name.basics'') False, Request ''name.basics'',
        Log (Finished_downloading ''name.basics'') True, Log Scanning_chunks True,
        Pull {''n1'', ''n2''}, Log Found_all True, Log (Matched 2) True])"
  by (simp add: resolver_defs)

lemma name_map_example:
  "name_map_of (disambiguate_names [person ''n1'' ''Ann'', person ''n2'' ''Bob''])
     = [(''n1'', ''Ann''), (''n2'', ''Bob'')]"
  by (simp add: name_map_of_def disambiguate_names_def dups_of_def value_counts_def person_def
      disambiguate_def)

lemma rewrite_example:
  "ids_to_names [(0, Some ''n1, n2'')] [(''n1'', ''Ann''), (''n2'', ''Bob'')] = Inr [(0, Some ''Ann'')]"
  by (simp add: ids_to_names_def map_series_def dropna_series_def explode_def groupby_join_def Let_def)

theorem unstripped_token_dropped_witness:
  "strip '' n2'' = ''n2'' \<and> strip '' n2'' \<noteq> '' n2''
   \<and> strip [CHR 0xA0, CHR ''n'', CHR ''2'', CHR 0x85] = ''n2''
   \<and> collect_ids Object Object [(0, sample_crewed ''tt1'' (Some ''n1, n2'') (Some ''n1''))]
       = Inr {''n1'', ''n2''}
   \<and> load_relevant_people {''n1'', ''n2''} (Some [[person ''n1'' ''Ann'', person ''n2'' ''Bob'']])
       = (Inr [person ''n1'' ''Ann'', person ''n2'' ''Bob''],
          [Log (Downloading ''name.basics'') False, Request ''name.basics'',
           Log (Finished_downloading ''name.basics'') True, Log Scanning_chunks True,
           Pull {''n1'', ''n2''}, Log Found_all True, Log (Matched 2) True])
   \<and> map_of [(''n1'', ''Ann''), (''n2'', ''Bob'')] ''n2'' = Some ''Bob''
   \<and> map_of [(''n1'', ''Ann''), (''n2'', ''Bob'')] '' n2'' = None
   \<and> map_of [(''n1'', ''Ann''), (''n2'', ''Bob'')] [CHR 0xA0, CHR ''n'', CHR ''2'', CHR 0x85] = None
   \<and> ids_to_names [(0, Some ''n1, n2'')] [(''n1'', ''Ann''), (''n2'', ''Bob'')]
       = Inr [(0, Some ''Ann'')]"
proof -
  let ?df = "[(0::nat, sample_crewed ''tt1'' (Some ''n1, n2'') (Some ''n1''))]"
  let ?people = "[person ''n1'' ''Ann'', person ''n2'' ''Bob'']"
  let ?nm = "[(''n1'', ''Ann''), (''n2'', ''Bob'')]"
  have s: "strip '' n2'' \<noteq> '' n2''" and s': "strip [CHR 0xA0, CHR ''n'', CHR ''2'', CHR 0x85]
      \<noteq> [CHR 0xA0, CHR ''n'', CHR ''2'', CHR 0x85]"
    by (simp_all add: strip_example)
  have n: "?nm = name_map_of (if ?people \<noteq> [] then disambiguate_names ?people else ?people)"
    by (simp add: name_map_example)
  note drop = unstripped_token_dropped [OF collect_example people_example n]
  from drop s have "map_of ?nm '' n2'' = None"
    by blast
  moreover from drop s' have "map_of ?nm [CHR 0xA0, CHR ''n'', CHR ''2'', CHR 0x85] = None"
    by blast
  moreover have "map_of ?nm ''n2'' = Some ''Bob''" by simp
  ultimately show ?thesis
    using s strip_example collect_example people_example rewrite_example by blast
qed

section \<open>Properties of the build\<close>

lemma log_fields:
  "csv_file (log m d w) = csv_file w" "requested (log m d w) = requested w"
  "VERBOSE (log m d w) = VERBOSE w"
  "console (log m d w) = console w @ (if d \<and> \<not> VERBOSE w then [] else [m])"
  by (simp_all add: log_def)

lemma perform1_fields:
  "csv_file (perform1 e w) = csv_file w" "VERBOSE (perform1 e w) = VERBOSE w"
  "requested (perform1 e w) = requested w @ requests_of [e]"
  "console (perform1 e w) = console w @ printed (VERBOSE w) [e]"
  by (cases e; simp add: log_fields requests_of_def printed_def)+

lemma requests_of_Cons: "requests_of (e # evs) = requests_of [e] @ requests_of evs"
  by (simp add: requests_of_def split: option.splits)

lemma printed_Cons: "printed v (e # evs) = printed v [e] @ printed v evs"
  by (simp add: printed_def split: option.splits)

lemma perform_Nil: "perform [] w = w"
  by (simp add: perform_def)

lemma perform_Cons: "perform (e # evs) w = perform evs (perform1 e w)"
  by (simp add: perform_def)

lemma perform_fields:
  "csv_file (perform evs w) = csv_file w \<and> VERBOSE (perform evs w) = VERBOSE w
   \<and> requested (perform evs w) = requested w @ requests_of evs
   \<and> console (perform evs w) = console w @ printed (VERBOSE w) evs"
proof (induction evs arbitrary: w)
  case Nil
  then show ?case by (simp add: perform_Nil requests_of_def printed_def)
next
  case (Cons e evs)
  show ?case
    unfolding perform_Cons
    using Cons [of "perform1 e w"] requests_of_Cons [of e evs] printed_Cons [of "VERBOSE w" e evs]
    by (simp add: perform1_fields)
qed

lemma verbosity: "(if VERBOSE w \<noteq> verbose then set_verbosity verbose w else w) = w\<lparr>VERBOSE := verbose\<rparr>"
  by (simp add: set_verbosity_def)

lemma build_cached_eq:
  "csv_file w \<noteq> None \<Longrightarrow>
     build_imdb_csv False verbose remote w =
       (Inr CSV_PATH, log Using_cached False (w\<lparr>VERBOSE := verbose\<rparr>))"
  unfolding build_imdb_csv_def verbosity Let_def
  by (simp add: perform_Cons perform_Nil)

lemma build_run_eq:
  "csv_file w = None \<or> force \<Longrightarrow>
     build_imdb_csv force verbose remote w =
       (case build_pipeline remote of
          (Inl e, evs) \<Rightarrow> (Inl e, perform evs (w\<lparr>VERBOSE := verbose\<rparr>))
        | (Inr df, evs) \<Rightarrow>
            (Inr CSV_PATH,
             (log Writing_csv False (perform evs (w\<lparr>VERBOSE := verbose\<rparr>)))\<lparr>csv_file := Some df\<rparr>))"
  unfolding build_imdb_csv_def verbosity Let_def
  by auto

lemma and_then_events:
  "x \<notin> set (snd m) \<Longrightarrow> (\<And>a. x \<notin> set (snd (f a))) \<Longrightarrow> x \<notin> set (snd (and_then m f))"
  by (cases m) (auto simp: and_then_def split: sum.splits prod.splits, metis snd_conv)

lemma trace_scan_chunk:
  "set (trace (scan_chunk idx chunk st)) \<subseteq> set (trace st) \<union> {Log (Processed a b) True | a b. True}"
  by (auto simp: scan_chunk_def Let_def add_events_def)

lemma trace_scan_chunks:
  "set (trace (scan_chunks idx reader st)) \<subseteq>
     set (trace st) \<union> range Pull \<union> {Log (Processed a b) True | a b. True} \<union> {Log Found_all True}"
proof (induction reader arbitrary: idx st)
  case Nil
  then show ?case by (auto simp: add_events_fields)
next
  case (Cons chunk reader)
  let ?st2 = "scan_chunk idx chunk (add_events [Pull (remaining_ids st)] st)"
  have t2: "set (trace ?st2) \<subseteq> set (trace st) \<union> range Pull \<union> {Log (Processed a b) True | a b. True}"
    using trace_scan_chunk [of idx chunk "add_events [Pull (remaining_ids st)] st"]
    by (auto simp: add_events_fields)
  show ?case
  proof (cases "remaining_ids ?st2 = {}")
    case True
    with t2 show ?thesis by (auto simp: Let_def add_events_fields)
  next
    case False
    with t2 Cons.IH [of "Suc idx" ?st2] show ?thesis
      by (simp add: Let_def) blast
  qed
qed

lemma no_building_read: "Log Building d \<notin> set (snd (read_imdb_tsv name archive))"
  by (simp add: read_imdb_tsv_def download_imdb_archive_def split: option.splits)

lemma no_building_load: "Log Building d \<notin> set (snd (load_relevant_people ids archive))"
proof (cases "ids = {}")
  case True
  then show ?thesis by (simp add: load_relevant_people_empty)
next
  case False
  show ?thesis
  proof (cases archive)
    case None
    with False show ?thesis by (simp add: load_relevant_people_None)
  next
    case (Some reader)
    have "Log Building d \<notin> set (trace (scan_chunks 1 reader (scan_init ids)))"
      using trace_scan_chunks [of 1 reader "scan_init ids"] by (auto simp: scan_init_fields)
    with False Some show ?thesis by (simp add: load_relevant_people_Some)
  qed
qed

lemma no_building_emit: "Log Building d \<notin> set evs \<Longrightarrow> Log Building d \<notin> set (snd (emit evs))"
  by (simp add: emit_def)

lemma no_building_lift: "Log Building d \<notin> set (snd (lift_error r))"
  by (simp add: lift_error_def)

lemma and_then_emit: "and_then (emit evs) f = (fst (f ()), evs @ snd (f ()))"
  by (simp add: and_then_def emit_def split: prod.splits)

lemma building_first:
  "(\<And>d. Log Building d \<notin> set (snd (f ()))) \<Longrightarrow>
     \<exists>rest. snd (and_then (emit [Log Building False]) f) = Log Building False # rest
            \<and> (\<forall>d. Log Building d \<notin> set rest)"
  by (simp add: and_then_emit)

lemma building_once:
  "\<exists>rest. snd (build_pipeline remote) = Log Building False # rest \<and> (\<forall>d. Log Building d \<notin> set rest)"
  unfolding build_pipeline_def Let_def
  apply (rule building_first)
  apply (intro and_then_events no_building_read no_building_load no_building_emit
          no_building_lift)
  apply simp_all
  done

subsection \<open>A build on the sample archives\<close>

lemma sample_fields:
  "tconst (sample_basics t ty adult year) = Some t" "r_tconst (sample_ratings t votes) = Some t"
  "c_tconst (sample_crew t d w) = Some t" "c_directors (sample_crew t d w) = d"
  "c_writers (sample_crew t d w) = w"
  by (simp_all add: sample_basics_def sample_ratings_def sample_crew_def)

lemma sample_rated_keys:
  "map tconst (merge_inner
      [sample_basics ''tt1'' ''movie'' 0 (Some 1999), sample_basics ''tt2'' ''movie'' 0 (Some 2001)]
      [sample_ratings ''tt1'' 1500, sample_ratings ''tt2'' 20]) = [Some ''tt1'', Some ''tt2'']"
  by (simp add: merge_inner_def sample_basics_def sample_ratings_def with_ratings_def)

lemmas sample_checks =
  check_merge_keys_def merge_key_error_def column_dtype_def sample_fields sample_rated_keys

lemma sample_frame:
  "title_filter (merge_titles
      [sample_basics ''tt1'' ''movie'' 0 (Some 1999), sample_basics ''tt2'' ''movie'' 0 (Some 2001)]
      [sample_ratings ''tt1'' 1500, sample_ratings ''tt2'' 20]
      [sample_crew ''tt1'' (Some ''p1,p2'') (Some ''p3''), sample_crew ''tt2'' (Some ''p3'') None])
   = [(0, sample_crewed ''tt1'' (Some ''p1,p2'') (Some ''p3''))]"
  by (simp add: merge_titles_def merge_left_def merge_inner_def range_index_def sample_crewed_def
        sample_basics_def sample_ratings_def sample_crew_def with_ratings_def with_crew_def
        title_filter_def title_mask_def eq_cell_def ge_cell_def notna_def
        upt_rec [of 0] upt_rec [of 1] upt_rec [of 2])

lemma sample_columns:
  "column_ids Object [Some ''p1,p2''] = Inr [''p1'', ''p2'']"
  "column_ids Object [Some ''p3''] = Inr [''p3'']"
  by (simp_all add: column_ids_def strip_def isspace_def List.map_filter_simps)

lemma sample_ids:
  "collect_ids Object Object [(0::nat, sample_crewed ''tt1'' (Some ''p1,p2'') (Some ''p3''))]
     = Inr {''p1'', ''p2'', ''p3''}"
  by (auto simp: collect_ids_def sample_crewed_def with_crew_def sample_columns)

lemma sample_people:
  "load_relevant_people {''p1'', ''p2'', ''p3''}
     (Some [[person ''p1'' ''Ann'', person ''p2'' ''Ann'', person ''p3'' ''Cy'']])
    = (Inr [person ''p1'' ''Ann'', person ''p2'' ''Ann'', person ''p3'' ''Cy''],
       [Log (Downloading ''name.basics'') False, Request ''name.basics'',
        Log (Finished_downloading ''name.basics'') True, Log Scanning_chunks True,
        Pull {''p1'', ''p2'', ''p3''}, Log Found_all True, Log (Matched 3) True])"
  by (simp add: resolver_defs)

lemma sample_name_map:
  "name_map_of (disambiguate_names [person ''p1'' ''Ann'', person ''p2'' ''Ann'', person ''p3'' ''Cy''])
     = [(''p1'', ''Ann (1)''), (''p2'', ''Ann (2)''), (''p3'', ''Cy'')]"
  by (simp add: name_map_of_def disambiguate_names_def dups_of_def value_counts_def person_def
      disambiguate_def counter_get_def str_nat_1 str_nat_2)

lemma sample_directors:
  "ids_to_names [(0, Some ''p1,p2'')] [(''p1'', ''Ann (1)''), (''p2'', ''Ann (2)''), (''p3'', ''Cy'')]
     = Inr [(0, Some ''Ann (1),Ann (2)'')]"
  by (simp add: ids_to_names_def map_series_def dropna_series_def explode_def groupby_join_def Let_def)

lemma sample_writers:
  "ids_to_names [(0, Some ''p3'')] [(''p1'', ''Ann (1)''), (''p2'', ''Ann (2)''), (''p3'', ''Cy'')]
     = Inr [(0, Some ''Cy'')]"
  by (simp add: ids_to_names_def map_series_def dropna_series_def explode_def groupby_join_def Let_def)

lemma sample_crewed_fields:
  "directors (sample_crewed t d w) = d" "writers (sample_crewed t d w) = w"
  by (simp_all add: sample_crewed_def with_crew_def)

lemma sample_pipeline:
  "build_pipeline sample_remote =
     (Inr sample_csv,
      [Log Building False,
       Log (Downloading ''title.basics'') False, Request ''title.basics'',
       Log (Finished_downloading ''title.basics'') True,
       Log (Parsing ''title.basics'') True, Log (Loaded 2 ''title.basics'') True,
       Log (Downloading ''title.ratings'') False, Request ''title.ratings'',
       Log (Finished_downloading ''title.ratings'') True,
       Log (Parsing ''title.ratings'') True, Log (Loaded 2 ''title.ratings'') True,
       Log (Downloading ''title.crew'') False, Request ''title.crew'',
       Log (Finished_downloading ''title.crew'') True,
       Log (Parsing ''title.crew'') True, Log (Loaded 2 ''title.crew'') True,
       Log Merging True, Log Applying_filters True, Log Collecting_ids True,
       Log (Unique_ids 3) True,
       Log (Downloading ''name.basics'') False, Request ''name.basics'',
       Log (Finished_downloading ''name.basics'') True, Log Scanning_chunks True,
       Pull {''p1'', ''p2'', ''p3''}, Log Found_all True, Log (Matched 3) True,
       Log Disambiguating True, Log Building_lookup True])"
  unfolding build_pipeline_def sample_remote_def
  apply (simp add: read_imdb_tsv_def download_imdb_archive_def and_then_def emit_def lift_error_def
       sample_checks sample_frame sample_ids sample_people sample_name_map Let_def
       sample_crewed_fields set_directors_def set_writers_def sample_directors sample_writers)
  apply (simp add: sample_crewed_def with_crew_def drop_columns_def sample_csv_def
       with_ratings_def sample_basics_def sample_ratings_def)
  done

subsection \<open>The cached file and repeated builds\<close>

lemma printed_logged: "m \<in> set (printed v evs) \<Longrightarrow> \<exists>d. Log m d \<in> set evs"
proof (induction evs)
  case Nil
  then show ?case by (simp add: printed_def)
next
  case (Cons e evs)
  from Cons.prems have "m \<in> set (printed v [e]) \<or> m \<in> set (printed v evs)"
    unfolding printed_Cons [of v e evs] by simp
  then show ?case
  proof
    assume "m \<in> set (printed v [e])"
    then have "\<exists>d. e = Log m d"
      by (cases e) (simp_all add: printed_def split: if_splits)
    then show ?thesis by auto
  next
    assume "m \<in> set (printed v evs)"
    with Cons.IH show ?thesis by auto
  qed
qed

lemma printed_building:
  assumes "\<forall>d. Log Building d \<notin> set rest"
  shows "count_list (printed v (Log Building False # rest)) Building = 1"
proof -
  have "Building \<notin> set (printed v rest)"
    using assms printed_logged [of Building v rest] by blast
  then have "count_list (printed v rest) Building = 0"
    by (simp add: count_list_0_iff)
  then show ?thesis by (simp add: printed_def)
qed

lemma count_list_append: "count_list (xs @ ys) x = count_list xs x + count_list ys x"
  by (induction xs) auto

lemma build_run_success:
  assumes "csv_file w = None \<or> force" and "fst (build_imdb_csv force verbose remote w) = Inr p"
  shows "p = CSV_PATH
       \<and> (\<exists>df. fst (build_pipeline remote) = Inr df
                \<and> csv_file (snd (build_imdb_csv force verbose remote w)) = Some df)
       \<and> count_list (console (snd (build_imdb_csv force verbose remote w))) Building
           = count_list (console w) Building + 1"
proof -
  obtain r evs where bp: "build_pipeline remote = (r, evs)" by (cases "build_pipeline remote")
  from building_once [of remote] bp obtain rest where
    evs: "evs = Log Building False # rest" and rest: "\<forall>d. Log Building d \<notin> set rest"
    by auto
  from assms(2) obtain df where r: "r = Inr df"
    unfolding build_run_eq [OF assms(1)] bp by (cases r) auto
  have "console (perform evs (w\<lparr>VERBOSE := verbose\<rparr>)) = console w @ printed verbose evs"
    using perform_fields [of evs "w\<lparr>VERBOSE := verbose\<rparr>"] by simp
  then have "count_list (console (log Writing_csv False (perform evs (w\<lparr>VERBOSE := verbose\<rparr>)))) Building
           = count_list (console w) Building + 1"
    unfolding evs by (simp add: log_fields count_list_append printed_building [OF rest])
  then show ?thesis
    using assms(2) unfolding build_run_eq [OF assms(1)] bp r by simp
qed

lemma build_cached_world:
  assumes "csv_file w \<noteq> None"
  shows "build_imdb_csv False verbose remote w =
           (Inr CSV_PATH, w\<lparr>VERBOSE := verbose, console := console w @ [Using_cached]\<rparr>)"
  unfolding build_cached_eq [OF assms] by (simp add: log_def)

text \<open>
  Claim C8, as the code has it. With the file present and \<^verbatim>\<open>force\<close> false a build returns the
  path of the file and changes nothing but the verbose flag and the console, where it
  prints the one line about the cached file: no archive is requested, the file stays as it
  is, no line of the pipeline is printed. Of two builds with \<^verbatim>\<open>force\<close> false of which the
  first succeeds, the second is such a build and returns the same path; over both the
  pipeline (its opening line is always printed) runs once when the file was missing
  before the first build, and not at all when the file was there.
\<close>

theorem build_cached_twice:
  fixes w :: "'f world" and remote_a remote_b :: "'f remote" and verbose_a verbose_b :: bool
  defines "first \<equiv> build_imdb_csv False verbose_a remote_a w"
  defines "second \<equiv> build_imdb_csv False verbose_b remote_b (snd first)"
  shows "(csv_file w \<noteq> None \<longrightarrow>
            first = (Inr CSV_PATH, w\<lparr>VERBOSE := verbose_a, console := console w @ [Using_cached]\<rparr>))
       \<and> (\<forall>p. fst first = Inr p \<longrightarrow>
            second = (Inr p, (snd first)\<lparr>VERBOSE := verbose_b,
                                          console := console (snd first) @ [Using_cached]\<rparr>)
            \<and> count_list (console (snd second)) Building
                = count_list (console w) Building + (if csv_file w = None then 1 else 0))"
proof (intro conjI impI allI)
  assume "csv_file w \<noteq> None"
  then show "first = (Inr CSV_PATH, w\<lparr>VERBOSE := verbose_a, console := console w @ [Using_cached]\<rparr>)"
    unfolding first_def by (rule build_cached_world)
next
  fix p assume ok: "fst first = Inr p"
  have after: "p = CSV_PATH \<and> csv_file (snd first) \<noteq> None
       \<and> count_list (console (snd first)) Building
           = count_list (console w) Building + (if csv_file w = None then 1 else 0)"
  proof (cases "csv_file w = None")
    case True
    then have "csv_file w = None \<or> False" by simp
    from build_run_success [OF this ok [unfolded first_def]] True show ?thesis
      unfolding first_def by auto
  next
    case False
    from build_cached_world [OF this, of verbose_a remote_a] ok False show ?thesis
      unfolding first_def by (simp add: count_list_append)
  qed
  then have present: "csv_file (snd first) \<noteq> None" by simp
  from build_cached_world [OF present, of verbose_b remote_b] after
  show "second = (Inr p, (snd first)\<lparr>VERBOSE := verbose_b,
                                          console := console (snd first) @ [Using_cached]\<rparr>)"
    unfolding second_def by simp
  from build_cached_world [OF present, of verbose_b remote_b] after
  show "count_list (console (snd second)) Building
                = count_list (console w) Building + (if csv_file w = None then 1 else 0)"
    unfolding second_def by (simp add: count_list_append)
qed

lemma sample_build:
  "fst (build_imdb_csv force verbose sample_remote fresh_world) = Inr CSV_PATH
   \<and> csv_file (snd (build_imdb_csv force verbose sample_remote fresh_world)) = Some sample_csv"
proof -
  have run: "csv_file fresh_world = None \<or> force" by (simp add: fresh_world_def)
  show ?thesis
    unfolding build_run_eq [OF run] sample_pipeline by simp
qed

lemma sample_requests:
  "requested (snd (build_imdb_csv False False sample_remote fresh_world))
     = [''title.basics'', ''title.ratings'', ''title.crew'', ''name.basics'']"
proof -
  have run: "csv_file fresh_world = None \<or> False" by (simp add: fresh_world_def)
  have "requested (perform evs (fresh_world\<lparr>VERBOSE := False\<rparr>)) = requests_of evs" for evs
    using perform_fields [of evs "fresh_world\<lparr>VERBOSE := False\<rparr>"] by (simp add: fresh_world_def)
  then show ?thesis
    unfolding build_run_eq [OF run] sample_pipeline
    by (simp add: log_fields requests_of_def List.map_filter_simps)
qed

theorem build_cached_twice_witness:
  "csv_file cached_world \<noteq> None
   \<and> build_imdb_csv False False sample_remote cached_world
       = (Inr CSV_PATH, cached_world\<lparr>VERBOSE := False, console := [Using_cached]\<rparr>)
   \<and> csv_file fresh_world = None
   \<and> fst (build_imdb_csv False False sample_remote fresh_world) = Inr CSV_PATH
   \<and> fst (build_imdb_csv False True sample_remote
              (snd (build_imdb_csv False False sample_remote fresh_world))) = Inr CSV_PATH
   \<and> count_list (console (snd (build_imdb_csv False True sample_remote
              (snd (build_imdb_csv False False sample_remote fresh_world))))) Building = 1
   \<and> csv_file (snd (build_imdb_csv False True sample_remote
              (snd (build_imdb_csv False False sample_remote fresh_world)))) = Some sample_csv
   \<and> requested (snd (build_imdb_csv False True sample_remote
              (snd (build_imdb_csv False False sample_remote fresh_world))))
       = [''title.basics'', ''title.ratings'', ''title.crew'', ''name.basics'']"
proof -
  have present: "csv_file cached_world \<noteq> None" and missing: "csv_file fresh_world = None"
    and quiet: "console cached_world = []" "console fresh_world = []"
    by (simp_all add: cached_world_def fresh_world_def)
  note hit = build_cached_twice [where w = cached_world and verbose_a = False
      and remote_a = sample_remote and verbose_b = False and remote_b = sample_remote]
  from hit present
  have a0: "build_imdb_csv False False sample_remote cached_world
       = (Inr CSV_PATH, cached_world\<lparr>VERBOSE := False,
                                      console := console cached_world @ [Using_cached]\<rparr>)"
    by blast
  then have a: "build_imdb_csv False False sample_remote cached_world
       = (Inr CSV_PATH, cached_world\<lparr>VERBOSE := False, console := [Using_cached]\<rparr>)"
    unfolding quiet(1) by simp
  have first: "fst (build_imdb_csv False False sample_remote fresh_world) = Inr CSV_PATH"
    and table: "csv_file (snd (build_imdb_csv False False sample_remote fresh_world)) = Some sample_csv"
    using sample_build [of False False] by simp_all
  note run = build_cached_twice [where w = fresh_world and verbose_a = False
      and remote_a = sample_remote and verbose_b = True and remote_b = sample_remote]
  from run first
  have c0: "build_imdb_csv False True sample_remote
              (snd (build_imdb_csv False False sample_remote fresh_world))
            = (Inr CSV_PATH, (snd (build_imdb_csv False False sample_remote fresh_world))
                 \<lparr>VERBOSE := True,
                  console := console (snd (build_imdb_csv False False sample_remote fresh_world))
                             @ [Using_cached]\<rparr>)"
    and d0: "count_list (console (snd (build_imdb_csv False True sample_remote
              (snd (build_imdb_csv False False sample_remote fresh_world))))) Building
             = count_list (console fresh_world) Building
               + (if csv_file fresh_world = None then 1 else 0)"
    by blast+
  from c0 have c: "fst (build_imdb_csv False True sample_remote
              (snd (build_imdb_csv False False sample_remote fresh_world))) = Inr CSV_PATH"
    by simp
  from d0 have d: "count_list (console (snd (build_imdb_csv False True sample_remote
              (snd (build_imdb_csv False False sample_remote fresh_world))))) Building = 1"
    unfolding missing quiet(2) by simp
  have e: "csv_file (snd (build_imdb_csv False True sample_remote
              (snd (build_imdb_csv False False sample_remote fresh_world)))) = Some sample_csv"
    unfolding c0 using table by simp
  have f: "requested (snd (build_imdb_csv False True sample_remote
              (snd (build_imdb_csv False False sample_remote fresh_world))))
       = [''title.basics'', ''title.ratings'', ''title.crew'', ''name.basics'']"
    unfolding c0 using sample_requests by simp
  from present a missing first c d e f show ?thesis by blast
qed

text \<open>
  Claim C8 as stated fails when the file is there before the first of the two builds: the
  pipeline does not run at all.
\<close>

theorem build_cached_twice_counterexample:
  "csv_file cached_world \<noteq> None
   \<and> count_list (console (snd (build_imdb_csv False False sample_remote
              (snd (build_imdb_csv False False sample_remote cached_world))))) Building = 0
   \<and> requested (snd (build_imdb_csv False False sample_remote
              (snd (build_imdb_csv False False sample_remote cached_world)))) = []"
proof -
  have present: "csv_file cached_world \<noteq> None"
    by (simp add: cached_world_def)
  have again: "csv_file (log Using_cached False (cached_world\<lparr>VERBOSE := False\<rparr>)) \<noteq> None"
    by (simp add: log_fields cached_world_def)
  show ?thesis
    unfolding build_cached_eq [OF present] snd_conv build_cached_eq [OF again]
    by (simp add: log_fields cached_world_def)
qed

section \<open>The order of Python's sets\<close>

lemma foldl_py_add:
  "distinct s \<Longrightarrow> distinct (foldl py_add s xs) \<and> set (foldl py_add s xs) = set s \<union> set xs"
  by (induction xs arbitrary: s) (auto simp: py_add_def)

lemma py_update_set:
  assumes "hash_order h" and "distinct s"
  shows "distinct (py_update h s xs) \<and> set (py_update h s xs) = set s \<union> set xs"
  using assms foldl_py_add [of s xs] unfolding py_update_def hash_order_def by simp

lemma py_set_set:
  "hash_order h \<Longrightarrow> distinct (py_set h xs) \<and> set (py_set h xs) = set xs"
  using py_update_set [of h "[]" xs] by (simp add: py_set_def)

lemma py_difference_update_set:
  assumes "hash_order h" and "distinct s"
  shows "distinct (py_difference_update h s t) \<and> set (py_difference_update h s t) = set s - set t"
proof -
  have "distinct (filter (\<lambda>x. x \<notin> set t) s)" using assms(2) by simp
  with assms(1) show ?thesis
    unfolding py_difference_update_def hash_order_def by auto
qed

lemma collect_ids_hashed_set:
  assumes "hash_order h"
  shows "case collect_ids_hashed h directors_dtype writers_dtype df of
           Inl e \<Rightarrow> collect_ids directors_dtype writers_dtype df = Inl e
         | Inr ids \<Rightarrow> distinct ids \<and> collect_ids directors_dtype writers_dtype df = Inr (set ids)"
proof -
  have "distinct (py_update h (py_update h [] ds) ws)
      \<and> set (py_update h (py_update h [] ds) ws) = set ds \<union> set ws" for ds ws
    using py_update_set [OF assms, of "[]" ds] py_update_set [OF assms, of "py_update h [] ds" ws]
    by simp
  then show ?thesis
    unfolding collect_ids_hashed_def collect_ids_def by (simp split: sum.splits)
qed

lemma scan_chunk_hashed_set:
  assumes "hash_order h" and "distinct (h_remaining_ids st)"
  shows "scan_state_of (scan_chunk_hashed h idx chunk st) = scan_chunk idx chunk (scan_state_of st)
       \<and> distinct (h_remaining_ids (scan_chunk_hashed h idx chunk st))"
proof -
  let ?matched = "py_set h (List.map_filter nconst
      (filter (\<lambda>p. isin (nconst p) (set (h_remaining_ids st))) (dropna_people chunk)))"
  have m: "set ?matched = set (List.map_filter nconst
      (filter (\<lambda>p. isin (nconst p) (set (h_remaining_ids st))) (dropna_people chunk)))"
    using py_set_set [OF assms(1)] by simp
  have d: "distinct (py_difference_update h (h_remaining_ids st) ?matched)
      \<and> set (py_difference_update h (h_remaining_ids st) ?matched)
          = set (h_remaining_ids st) - set ?matched"
    using assms by (rule py_difference_update_set)
  from d have len: "length (py_difference_update h (h_remaining_ids st) ?matched)
      = card (set (h_remaining_ids st) - set ?matched)"
    using distinct_card [of "py_difference_update h (h_remaining_ids st) ?matched"] by simp
  have len0: "length (h_remaining_ids st) = card (set (h_remaining_ids st))"
    using assms(2) by (simp add: distinct_card)
  show ?thesis
    using assms(2) d len len0 unfolding m
    by (simp add: scan_chunk_hashed_def scan_chunk_def scan_state_of_def Let_def add_events_def)
qed

lemma scan_chunks_hashed_set:
  assumes "hash_order h"
  shows "distinct (h_remaining_ids st) \<Longrightarrow>
     scan_state_of (scan_chunks_hashed h idx reader st) = scan_chunks idx reader (scan_state_of st)
     \<and> distinct (h_remaining_ids (scan_chunks_hashed h idx reader st))"
proof (induction reader arbitrary: idx st)
  case Nil
  then show ?case by (simp add: scan_state_of_def add_events_def)
next
  case (Cons chunk reader)
  let ?st1 = "st\<lparr>h_trace := h_trace st @ [Pull (set (h_remaining_ids st))]\<rparr>"
  let ?st2 = "scan_chunk_hashed h idx chunk ?st1"
  have s1: "scan_state_of ?st1 = add_events [Pull (remaining_ids (scan_state_of st))] (scan_state_of st)"
    by (simp add: scan_state_of_def add_events_def)
  from Cons.prems have "distinct (h_remaining_ids ?st1)" by simp
  with assms have s2: "scan_state_of ?st2 = scan_chunk idx chunk (scan_state_of ?st1)"
    and d2: "distinct (h_remaining_ids ?st2)"
    using scan_chunk_hashed_set [of h ?st1 idx chunk] by simp_all
  have e: "h_remaining_ids ?st2 = [] \<longleftrightarrow> remaining_ids (scan_state_of ?st2) = {}"
    by (simp add: scan_state_of_def)
  show ?case
  proof (cases "h_remaining_ids ?st2 = []")
    case True
    then have stop: "scan_chunks_hashed h idx (chunk # reader) st
        = ?st2\<lparr>h_trace := h_trace ?st2 @ [Log Found_all True]\<rparr>"
      by (simp add: Let_def)
    have "scan_state_of (?st2\<lparr>h_trace := h_trace ?st2 @ [Log Found_all True]\<rparr>)
        = add_events [Log Found_all True] (scan_state_of ?st2)"
      by (simp add: scan_state_of_def add_events_def)
    moreover from True e have "remaining_ids (scan_state_of ?st2) = {}" by simp
    ultimately have "scan_state_of (scan_chunks_hashed h idx (chunk # reader) st)
        = scan_chunks idx (chunk # reader) (scan_state_of st)"
      unfolding stop s2 s1 by (simp add: Let_def)
    moreover have "distinct (h_remaining_ids (scan_chunks_hashed h idx (chunk # reader) st))"
      unfolding stop using d2 by simp
    ultimately show ?thesis by simp
  next
    case False
    then have go: "scan_chunks_hashed h idx (chunk # reader) st
        = scan_chunks_hashed h (Suc idx) reader ?st2"
      by (simp add: Let_def)
    from False e have "remaining_ids (scan_state_of ?st2) \<noteq> {}" by simp
    then have "scan_chunks idx (chunk # reader) (scan_state_of st)
        = scan_chunks (Suc idx) reader (scan_state_of ?st2)"
      unfolding s2 s1 by (simp add: Let_def)
    with Cons.IH [OF d2, of "Suc idx"] show ?thesis
      unfolding go by simp
  qed
qed

lemma load_relevant_people_hashed_set:
  assumes "hash_order h" and "distinct ids"
  shows "load_relevant_people_hashed h ids archive = load_relevant_people (set ids) archive"
proof (cases "ids = []")
  case True
  then show ?thesis by (simp add: load_relevant_people_hashed_def load_relevant_people_def)
next
  case False
  let ?st0 = "\<lparr>h_frames = [], h_remaining_ids = py_set h ids, h_total_matched = 0,
               h_trace = [Log Scanning_chunks True]\<rparr>"
  have p: "distinct (py_set h ids)" "set (py_set h ids) = set ids"
    using py_set_set [OF assms(1), of ids] by simp_all
  have s0: "scan_state_of ?st0 = scan_init (set ids)"
    by (simp add: scan_state_of_def scan_init_def p)
  have body:
    "(let st = scan_chunks_hashed h 1 reader ?st0;
          relevant_people = (if h_frames st \<noteq> [] then concat (h_frames st) else [])
      in (Inr relevant_people,
          h_trace st
          @ (if h_remaining_ids st \<noteq> []
             then [Log (Warning_not_found (length (h_remaining_ids st))) False] else [])
          @ [Log (Matched (h_total_matched st)) True]))
     = (let st = scan_chunks 1 reader (scan_init (set ids));
            relevant_people = (if frames st \<noteq> [] then concat (frames st) else [])
        in (Inr relevant_people,
            trace st
            @ (if remaining_ids st \<noteq> {}
               then [Log (Warning_not_found (card (remaining_ids st))) False] else [])
            @ [Log (Matched (total_matched st)) True]))"
    (is "?lhs = ?rhs") for reader :: "person_row list list"
  proof -
    let ?hs = "scan_chunks_hashed h 1 reader ?st0"
    from scan_chunks_hashed_set [OF assms(1), of ?st0 1 reader] p(1)
    have run: "scan_state_of ?hs = scan_chunks 1 reader (scan_init (set ids))"
      and d: "distinct (h_remaining_ids ?hs)"
      unfolding s0 by simp_all
    have "frames (scan_state_of ?hs) = h_frames ?hs" "trace (scan_state_of ?hs) = h_trace ?hs"
      "total_matched (scan_state_of ?hs) = h_total_matched ?hs"
      "remaining_ids (scan_state_of ?hs) = set (h_remaining_ids ?hs)"
      by (simp_all add: scan_state_of_def)
    moreover have "card (set (h_remaining_ids ?hs)) = length (h_remaining_ids ?hs)"
      using d by (rule distinct_card)
    ultimately show ?thesis
      unfolding run [symmetric] Let_def by simp
  qed
  from False have "set ids \<noteq> {}" by simp
  with False show ?thesis
    unfolding load_relevant_people_hashed_def load_relevant_people_def body by simp
qed

lemma and_then_lift_collect:
  assumes "hash_order h" and "\<And>ids. distinct ids \<Longrightarrow> f ids = g (set ids)"
  shows "and_then (lift_error (collect_ids_hashed h directors_dtype writers_dtype df)) f
       = and_then (lift_error (collect_ids directors_dtype writers_dtype df)) g"
  using collect_ids_hashed_set [OF assms(1), of directors_dtype writers_dtype df] assms(2)
  by (cases "collect_ids_hashed h directors_dtype writers_dtype df")
     (simp_all add: and_then_def lift_error_def)

lemma and_then_ext: "(\<And>a. f a = g a) \<Longrightarrow> and_then m f = and_then m g"
  by presburger

lemma build_pipeline_hashed_set:
  assumes "hash_order h"
  shows "build_pipeline_hashed h remote = build_pipeline remote"
  unfolding build_pipeline_hashed_def build_pipeline_def Let_def
  apply (intro and_then_ext and_then_lift_collect [OF assms])
  apply (simp add: load_relevant_people_hashed_set [OF assms] distinct_card)
  done

lemma build_imdb_csv_hashed_set:
  assumes "hash_order h"
  shows "build_imdb_csv_hashed h force verbose remote w = build_imdb_csv force verbose remote w"
  unfolding build_imdb_csv_hashed_def build_imdb_csv_def build_pipeline_hashed_set [OF assms]
  by (rule refl)

lemma build_forced_alike:
  fixes w_a w_b :: "'f world"
  shows "fst (build_imdb_csv True verbose_a remote w_a) = fst (build_imdb_csv True verbose_b remote w_b)
       \<and> (\<forall>p. fst (build_imdb_csv True verbose_a remote w_a) = Inr p \<longrightarrow>
             (\<exists>df. csv_file (snd (build_imdb_csv True verbose_a remote w_a)) = Some df
                  \<and> csv_file (snd (build_imdb_csv True verbose_b remote w_b)) = Some df))"
proof -
  obtain r evs where bp: "build_pipeline remote = (r, evs)" by (cases "build_pipeline remote")
  have run: "build_imdb_csv True verbose remote w =
       (case r of
          Inl e \<Rightarrow> (Inl e, perform evs (w\<lparr>VERBOSE := verbose\<rparr>))
        | Inr df \<Rightarrow>
            (Inr CSV_PATH,
             (log Writing_csv False (perform evs (w\<lparr>VERBOSE := verbose\<rparr>)))\<lparr>csv_file := Some df\<rparr>))"
    for verbose and w :: "'f world"
    using build_run_eq [of w True verbose remote] bp by (simp split: sum.splits)
  show ?thesis
    unfolding run by (cases r) simp_all
qed

text \<open>
  Claim C10. A run of the build is fixed by the four archives, the world it starts in, the
  verbose flag and the order in which Python iterates over the sets of that run; the
  statement is about two runs that share the archives only. Whatever the two orders, the
  pipeline comes to the same result with the same events (the lines it logs, the archives
  and chunks it asks for), so two forced builds both fail with the same error or both
  succeed, and then both leave the same table in the file. The resolver alone already
  returns the same rows in the same order, and logs the same, for the same wanted
  identifiers in whatever order the two runs hold them: these rows fix the suffixes.
\<close>

theorem build_deterministic:
  fixes w_a w_b :: "'f world"
  assumes "hash_order h_a" and "hash_order h_b"
  shows "build_pipeline_hashed h_a remote = build_pipeline_hashed h_b remote
       \<and> fst (build_imdb_csv_hashed h_a True verbose_a remote w_a)
           = fst (build_imdb_csv_hashed h_b True verbose_b remote w_b)
       \<and> (\<forall>p. fst (build_imdb_csv_hashed h_a True verbose_a remote w_a) = Inr p \<longrightarrow>
             (\<exists>df. csv_file (snd (build_imdb_csv_hashed h_a True verbose_a remote w_a)) = Some df
                  \<and> csv_file (snd (build_imdb_csv_hashed h_b True verbose_b remote w_b)) = Some df))
       \<and> (\<forall>ids_a ids_b archive.
             distinct ids_a \<and> distinct ids_b \<and> set ids_a = set ids_b \<longrightarrow>
             load_relevant_people_hashed h_a ids_a archive
               = load_relevant_people_hashed h_b ids_b archive)"
proof (intro conjI allI impI)
  show "build_pipeline_hashed h_a remote = build_pipeline_hashed h_b remote"
    by (simp add: build_pipeline_hashed_set assms)
  show "fst (build_imdb_csv_hashed h_a True verbose_a remote w_a)
           = fst (build_imdb_csv_hashed h_b True verbose_b remote w_b)"
    unfolding build_imdb_csv_hashed_set [OF assms(1)] build_imdb_csv_hashed_set [OF assms(2)]
    using build_forced_alike [of verbose_a remote w_a verbose_b w_b] by (rule conjunct1)
next
  fix p
  assume "fst (build_imdb_csv_hashed h_a True verbose_a remote w_a) = Inr p"
  then show "\<exists>df. csv_file (snd (build_imdb_csv_hashed h_a True verbose_a remote w_a)) = Some df
                  \<and> csv_file (snd (build_imdb_csv_hashed h_b True verbose_b remote w_b)) = Some df"
    unfolding build_imdb_csv_hashed_set [OF assms(1)] build_imdb_csv_hashed_set [OF assms(2)]
    using build_forced_alike [of verbose_a remote w_a verbose_b w_b] by blast
next
  fix ids_a ids_b :: "string list" and archive
  assume "distinct ids_a \<and> distinct ids_b \<and> set ids_a = set ids_b"
  then show "load_relevant_people_hashed h_a ids_a archive
               = load_relevant_people_hashed h_b ids_b archive"
    by (simp add: load_relevant_people_hashed_set assms)
qed

lemma hash_order_examples: "hash_order (\<lambda>xs. xs)" "hash_order rev"
  by (simp_all add: hash_order_def)

lemma sample_ids_hashed:
  "collect_ids_hashed (\<lambda>xs. xs) Object Object
       [(0::nat, sample_crewed ''tt1'' (Some ''p1,p2'') (Some ''p3''))] = Inr [''p1'', ''p2'', ''p3'']"
  "collect_ids_hashed rev Object Object
       [(0::nat, sample_crewed ''tt1'' (Some ''p1,p2'') (Some ''p3''))] = Inr [''p3'', ''p1'', ''p2'']"
  by (simp_all add: collect_ids_hashed_def sample_crewed_fields sample_columns py_update_def py_add_def)

lemma sample_people_hashed:
  "load_relevant_people_hashed rev [''p3'', ''p1'', ''p2'']
     (Some [[person ''p1'' ''Ann'', person ''p2'' ''Ann'', person ''p3'' ''Cy'']])
    = (Inr [person ''p1'' ''Ann'', person ''p2'' ''Ann'', person ''p3'' ''Cy''],
       [Log (Downloading ''name.basics'') False, Request ''name.basics'',
        Log (Finished_downloading ''name.basics'') True, Log Scanning_chunks True,
        Pull {''p1'', ''p2'', ''p3''}, Log Found_all True, Log (Matched 3) True])"
  by (auto simp: load_relevant_people_hashed_def and_then_def download_imdb_archive_def Let_def
        scan_chunk_hashed_def py_set_def py_update_def py_add_def py_difference_update_def
        dropna_people_def isin_def person_def List.map_filter_simps)

theorem build_deterministic_witness:
  "hash_order (\<lambda>xs. xs) \<and> hash_order rev
   \<and> collect_ids_hashed (\<lambda>xs. xs) Object Object
       [(0::nat, sample_crewed ''tt1'' (Some ''p1,p2'') (Some ''p3''))] = Inr [''p1'', ''p2'', ''p3'']
   \<and> collect_ids_hashed rev Object Object
       [(0::nat, sample_crewed ''tt1'' (Some ''p1,p2'') (Some ''p3''))] = Inr [''p3'', ''p1'', ''p2'']
   \<and> load_relevant_people_hashed (\<lambda>xs. xs) [''p1'', ''p2'', ''p3'']
         (Some [[person ''p1'' ''Ann'', person ''p2'' ''Ann'', person ''p3'' ''Cy'']])
       = load_relevant_people_hashed rev [''p3'', ''p1'', ''p2'']
         (Some [[person ''p1'' ''Ann'', person ''p2'' ''Ann'', person ''p3'' ''Cy'']])
   \<and> fst (load_relevant_people_hashed rev [''p3'', ''p1'', ''p2'']
         (Some [[person ''p1'' ''Ann'', person ''p2'' ''Ann'', person ''p3'' ''Cy'']]))
       = Inr [person ''p1'' ''Ann'', person ''p2'' ''Ann'', person ''p3'' ''Cy'']
   \<and> build_pipeline_hashed (\<lambda>xs. xs) sample_remote = build_pipeline_hashed rev sample_remote
   \<and> fst (build_imdb_csv_hashed (\<lambda>xs. xs) True False sample_remote fresh_world) = Inr CSV_PATH
   \<and> fst (build_imdb_csv_hashed rev True True sample_remote cached_world) = Inr CSV_PATH
   \<and> csv_file (snd (build_imdb_csv_hashed (\<lambda>xs. xs) True False sample_remote fresh_world))
       = Some sample_csv
   \<and> csv_file (snd (build_imdb_csv_hashed rev True True sample_remote cached_world))
       = Some sample_csv"
proof -
  let ?R = "Some [[person ''p1'' ''Ann'', person ''p2'' ''Ann'', person ''p3'' ''Cy'']]"
  note det = build_deterministic [OF hash_order_examples, where remote = sample_remote
      and w_a = fresh_world and w_b = cached_world and verbose_a = False and verbose_b = True]
  have one: "fst (build_imdb_csv_hashed (\<lambda>xs. xs) True False sample_remote fresh_world) = Inr CSV_PATH"
    and tbl: "csv_file (snd (build_imdb_csv_hashed (\<lambda>xs. xs) True False sample_remote fresh_world))
       = Some sample_csv"
    unfolding build_imdb_csv_hashed_set [OF hash_order_examples(1)]
    using sample_build [of True False] by simp_all
  from det have pipe: "build_pipeline_hashed (\<lambda>xs. xs) sample_remote = build_pipeline_hashed rev sample_remote"
    by (rule conjunct1)
  from det one have two: "fst (build_imdb_csv_hashed rev True True sample_remote cached_world) = Inr CSV_PATH"
    by simp
  from det one tbl
  have tbl2: "csv_file (snd (build_imdb_csv_hashed rev True True sample_remote cached_world)) = Some sample_csv"
    by auto
  have "distinct [''p1'', ''p2'', ''p3''] \<and> distinct [''p3'', ''p1'', ''p2'']
      \<and> set [''p1'', ''p2'', ''p3''] = set [''p3'', ''p1'', ''p2'']"
    by auto
  with det have same: "load_relevant_people_hashed (\<lambda>xs. xs) [''p1'', ''p2'', ''p3''] ?R
       = load_relevant_people_hashed rev [''p3'', ''p1'', ''p2''] ?R"
    by blast
  have rows: "fst (load_relevant_people_hashed rev [''p3'', ''p1'', ''p2''] ?R)
       = Inr [person ''p1'' ''Ann'', person ''p2'' ''Ann'', person ''p3'' ''Cy'']"
    unfolding sample_people_hashed by simp
  from hash_order_examples sample_ids_hashed same rows pipe one two tbl tbl2
  show ?thesis by (intro conjI)
qed

end
